theory Spec2Isabelle
  imports Main "HOL-Library.Word"
begin

section \<open>The LRU list of the cache (package cache, lru.go)\<close>

text \<open>
  Go pointers are addresses into an explicit store. A \<open>*node\<close> or \<open>*lru\<close> is
  \<open>nat option\<close>, \<open>None\<close> being \<open>nil\<close>. The store is total: every address holds a struct,
  as every non-nil Go pointer does. Go's \<open>int\<close> and \<open>int64\<close> are 64-bit words (a 64-bit
  platform), compared as signed values; \<open>int32\<close> is a 32-bit word.
\<close>

type_synonym int64 = "64 word"
type_synonym int32 = "32 word"
type_synonym nodeptr = "nat option"
type_synonym lruptr = "nat option"

text \<open>
  A panic of the source: the two explicit \<open>panic\<close> calls of lru.go, and the runtime
  panic of a nil pointer dereference. A panicking call returns \<open>Inl\<close> of the panic and the
  store as it was when the panic was raised.
\<close>

datatype panic =
  ShrinkNegative int64
  | NodeOutOfRange
  | NilDeref

type_synonym 's res = "(panic \<times> 's) + 's"

text \<open>
  Modelled from the spec: the structs \<open>ItemMeta\<close> and \<open>Item\<close> (\<open>Item\<close> embeds
  \<open>ItemMeta\<close>, \<open>node\<close> embeds \<open>Item\<close>) are declared outside src/. The spec gives an
  item a key, opaque 32-bit flags, a payload byte count, an expiry that is an absolute
  time in seconds or "never" (\<open>None\<close>), and the payload. \<open>Key\<close> is a Go string (bytes),
  \<open>Bytes\<close> a Go \<open>int\<close>.
\<close>

record item_meta =
  Key :: string
  Flags :: int32
  Expiry :: "int64 option"
  Bytes :: int64

record item = item_meta +
  Data :: string

record node =
  Item :: item
  active :: int32
  owner :: lruptr
  prev :: nodeptr
  "next" :: nodeptr

record lru =
  size_l :: int64
  fakeHead :: nodeptr
  fakeTail :: nodeptr

record heap =
  nodes :: "nat \<Rightarrow> node"
  lrus :: "nat \<Rightarrow> lru"

text \<open>The three callbacks of an \<open>lru\<close>, called by \<open>shrink\<close> with the walked node.\<close>

record 's callbacks =
  onExpire :: "nat \<Rightarrow> 's \<Rightarrow> 's res"
  onActive :: "nat \<Rightarrow> 's \<Rightarrow> 's res"
  onInactive :: "nat \<Rightarrow> 's \<Rightarrow> 's res"

definition inactive_c :: int32 where
  "inactive_c = 0"

definition active_c :: int32 where
  "active_c = 1"

definition extraSizePerNode :: int64 where
  "extraSizePerNode = 256"

text \<open>Assignment to a field of the struct at an address.\<close>

definition upd_node :: "nat \<Rightarrow> (node \<Rightarrow> node) \<Rightarrow> 'a heap_scheme \<Rightarrow> 'a heap_scheme" where
  "upd_node p f h = h\<lparr>nodes := (nodes h)(p := f (nodes h p))\<rparr>"

definition upd_lru :: "nat \<Rightarrow> (lru \<Rightarrow> lru) \<Rightarrow> 'a heap_scheme \<Rightarrow> 'a heap_scheme" where
  "upd_lru l f h = h\<lparr>lrus := (lrus h)(l := f (lrus h l))\<rparr>"

text \<open>\<open>func (n *node) size() int64\<close>\<close>

definition size_n :: "node \<Rightarrow> int64" where
  "size_n n = extraSizePerNode + of_nat (length (Key (Item n))) + Bytes (Item n)"

text \<open>\<open>func (n *node) isActive() bool\<close> and \<open>func (n *node) setActive()\<close>\<close>

definition isActive :: "node \<Rightarrow> bool" where
  "isActive n = (active n = active_c)"

definition setActive :: "nat \<Rightarrow> 'a heap_scheme \<Rightarrow> 'a heap_scheme" where
  "setActive n h = upd_node n (\<lambda>x. x\<lparr>active := active_c\<rparr>) h"

text \<open>
  Modelled from the spec: the method \<open>expired\<close> of the embedded \<open>Item\<close> is declared
  outside src/. The spec: the node has a finite expiry and \<open>now \<ge> expiry\<close>.
\<close>

definition expired :: "node \<Rightarrow> int64 \<Rightarrow> bool" where
  "expired n now = (case Expiry (Item n) of None \<Rightarrow> False | Some e \<Rightarrow> e \<le>s now)"

text \<open>
  \<open>func link(a, b *node) { a.next, b.prev = b, a }\<close>: the two assignments are carried
  out left to right, each dereferencing its pointer.
\<close>

definition link :: "nodeptr \<Rightarrow> nodeptr \<Rightarrow> 'a heap_scheme \<Rightarrow> 'a heap_scheme res" where
  "link a b h =
     (case a of
        None \<Rightarrow> Inl (NilDeref, h)
      | Some a' \<Rightarrow>
          (let h1 = upd_node a' (\<lambda>x. x\<lparr>next := b\<rparr>) h in
           case b of
             None \<Rightarrow> Inl (NilDeref, h1)
           | Some b' \<Rightarrow> Inr (upd_node b' (\<lambda>x. x\<lparr>prev := a\<rparr>) h1)))"

text \<open>\<open>func (l *lru) head() *node\<close> and \<open>tail()\<close>: they dereference a sentinel.\<close>

definition head :: "'a heap_scheme \<Rightarrow> nat \<Rightarrow> panic + nodeptr" where
  "head h l =
     (case fakeHead (lrus h l) of
        None \<Rightarrow> Inl NilDeref
      | Some fh \<Rightarrow> Inr (next (nodes h fh)))"

definition tail :: "'a heap_scheme \<Rightarrow> nat \<Rightarrow> panic + nodeptr" where
  "tail h l =
     (case fakeTail (lrus h l) of
        None \<Rightarrow> Inl NilDeref
      | Some ft \<Rightarrow> Inr (prev (nodes h ft)))"

text \<open>\<open>func (l *lru) end(n *node) bool\<close>\<close>

definition end_l :: "'a heap_scheme \<Rightarrow> nat \<Rightarrow> nodeptr \<Rightarrow> bool" where
  "end_l h l n = (n = fakeTail (lrus h l))"

text \<open>\<open>func (l *lru) assertNotTail(n *node)\<close>\<close>

definition assertNotTail :: "nat \<Rightarrow> nodeptr \<Rightarrow> 'a heap_scheme \<Rightarrow> 'a heap_scheme res" where
  "assertNotTail l n h =
     (if n = fakeTail (lrus h l) then Inl (NodeOutOfRange, h) else Inr h)"

text \<open>\<open>func attachAsInactive(n *node)\<close>\<close>

definition attachAsInactive :: "nat \<Rightarrow> 'a heap_scheme \<Rightarrow> 'a heap_scheme res" where
  "attachAsInactive n h =
     (let h1 = upd_node n (\<lambda>x. x\<lparr>active := inactive_c\<rparr>) h in
      case owner (nodes h1 n) of
        None \<Rightarrow> Inl (NilDeref, h1)
      | Some l \<Rightarrow>
          (case tail h1 l of
             Inl p \<Rightarrow> Inl (p, h1)
           | Inr t \<Rightarrow>
               (case link t (Some n) h1 of
                  Inl e \<Rightarrow> Inl e
                | Inr h2 \<Rightarrow>
                    (case owner (nodes h2 n) of
                       None \<Rightarrow> Inl (NilDeref, h2)
                     | Some l' \<Rightarrow> link (Some n) (fakeTail (lrus h2 l')) h2))))"

text \<open>\<open>func (l *lru) pushBack(n *node)\<close>\<close>

definition pushBack :: "nat \<Rightarrow> nat \<Rightarrow> 'a heap_scheme \<Rightarrow> 'a heap_scheme res" where
  "pushBack l n h =
     (let h1 = upd_node n (\<lambda>x. x\<lparr>owner := Some l\<rparr>) h;
          h2 = upd_lru l (\<lambda>r. r\<lparr>size_l := size_l r + size_n (nodes h1 n)\<rparr>) h1
      in attachAsInactive n h2)"

text \<open>
  \<open>func (n *node) disown()\<close> and \<open>func (n *node) detach()\<close>. The constant
  \<open>tag.Debug\<close> is declared outside src/ (a build tag): it is the parameter \<open>dbg\<close>.
\<close>

definition disown :: "bool \<Rightarrow> nat \<Rightarrow> 'a heap_scheme \<Rightarrow> 'a heap_scheme res" where
  "disown dbg n h =
     (case owner (nodes h n) of
        None \<Rightarrow> Inl (NilDeref, h)
      | Some l \<Rightarrow>
          (let h1 = upd_lru l (\<lambda>r. r\<lparr>size_l := size_l r - size_n (nodes h n)\<rparr>) h in
           Inr (if dbg then upd_node n (\<lambda>x. x\<lparr>owner := None\<rparr>) h1 else h1)))"

definition detach :: "bool \<Rightarrow> nat \<Rightarrow> 'a heap_scheme \<Rightarrow> 'a heap_scheme res" where
  "detach dbg n h =
     (case link (prev (nodes h n)) (next (nodes h n)) h of
        Inl e \<Rightarrow> Inl e
      | Inr h1 \<Rightarrow>
          Inr (if dbg then upd_node n (\<lambda>x. x\<lparr>prev := None, next := None\<rparr>) h1 else h1))"

text \<open>\<open>func moveTo(other *lru) func(*node)\<close>\<close>

definition moveTo :: "bool \<Rightarrow> nat \<Rightarrow> nat \<Rightarrow> 'a heap_scheme \<Rightarrow> 'a heap_scheme res" where
  "moveTo dbg other n h =
     (case disown dbg n h of
        Inl e \<Rightarrow> Inl e
      | Inr h1 \<Rightarrow> pushBack other n h1)"

text \<open>
  The callback \<open>shrink\<close> chooses for the walked node: the first of expired, active,
  inactive that applies.
\<close>

definition choose_callback :: "'s callbacks \<Rightarrow> node \<Rightarrow> int64 \<Rightarrow> nat \<Rightarrow> 's \<Rightarrow> 's res" where
  "choose_callback cb c now =
     (if expired c now then onExpire cb
      else if isActive c then onActive cb
      else onInactive cb)"

text \<open>
  The loop of \<open>shrink\<close>, on the loop variables \<open>cur\<close> and \<open>next\<close> (here \<open>nx\<close>). It may
  run forever (a callback can put the walked node back): not returning is \<open>None\<close>.
\<close>

partial_function (option) shrink_loop ::
  "bool \<Rightarrow> ('a heap_scheme) callbacks \<Rightarrow> nat \<Rightarrow> int64 \<Rightarrow> int64 \<Rightarrow> nodeptr \<Rightarrow> nodeptr
     \<Rightarrow> 'a heap_scheme \<Rightarrow> ('a heap_scheme) res option" where
  "shrink_loop dbg cb l toSize now cur nx h =
     (if toSize <s size_l (lrus h l) then
        (case assertNotTail l cur h of
           Inl e \<Rightarrow> Some (Inl e)
         | Inr h0 \<Rightarrow>
             (case cur of
                None \<Rightarrow> Some (Inl (NilDeref, h0))
              | Some c \<Rightarrow>
                  (let h1 = (if dbg then upd_node c (\<lambda>x. x\<lparr>prev := None\<rparr>) h0 else h0) in
                   case choose_callback cb (nodes h1 c) now c h1 of
                     Inl e \<Rightarrow> Some (Inl e)
                   | Inr h2 \<Rightarrow>
                       (case nx of
                          None \<Rightarrow> Some (Inl (NilDeref, h2))
                        | Some n' \<Rightarrow>
                            shrink_loop dbg cb l toSize now nx (next (nodes h2 n')) h2))))
      else Some (link (fakeHead (lrus h l)) cur h))"

text \<open>\<open>func (l *lru) shrink(toSize int64, now int64)\<close>\<close>

definition shrink ::
  "bool \<Rightarrow> ('a heap_scheme) callbacks \<Rightarrow> nat \<Rightarrow> int64 \<Rightarrow> int64
     \<Rightarrow> 'a heap_scheme \<Rightarrow> ('a heap_scheme) res option" where
  "shrink dbg cb l toSize now h =
     (if toSize <s 0 then Some (Inl (ShrinkNegative toSize, h))
      else
        (case head h l of
           Inl p \<Rightarrow> Some (Inl (p, h))
         | Inr cur \<Rightarrow>
             (case cur of
                None \<Rightarrow> Some (Inl (NilDeref, h))
              | Some c \<Rightarrow> shrink_loop dbg cb l toSize now cur (next (nodes h c)) h)))"

subsection \<open>The callbacks lru.go defines\<close>

text \<open>
  The functions of lru.go that have a callback's type \<open>func(*node)\<close>: the method
  \<open>disown\<close>, \<open>attachAsInactive\<close>, and the closures \<open>moveTo(other)\<close>.
\<close>

datatype cb_kind = Disown | Attach | MoveTo nat

fun run_callback :: "bool \<Rightarrow> cb_kind \<Rightarrow> nat \<Rightarrow> 'a heap_scheme \<Rightarrow> 'a heap_scheme res" where
  "run_callback dbg Disown = disown dbg"
| "run_callback dbg Attach = attachAsInactive"
| "run_callback dbg (MoveTo other) = moveTo dbg other"

definition callbacks_of :: "bool \<Rightarrow> cb_kind \<Rightarrow> cb_kind \<Rightarrow> cb_kind \<Rightarrow> ('a heap_scheme) callbacks" where
  "callbacks_of dbg ke ka ki =
     \<lparr>onExpire = run_callback dbg ke,
      onActive = run_callback dbg ka,
      onInactive = run_callback dbg ki\<rparr>"

text \<open>
  A callback takes the walked node out of the list \<open>l\<close> when it disowns it or moves it
  to another list; the lists a callback moves to are among \<open>L\<close>.
\<close>

fun removes :: "nat \<Rightarrow> cb_kind \<Rightarrow> bool" where
  "removes l Disown = True"
| "removes l Attach = False"
| "removes l (MoveTo other) = (other \<noteq> l)"

fun target_in :: "nat set \<Rightarrow> cb_kind \<Rightarrow> bool" where
  "target_in L (MoveTo other) = (other \<in> L)"
| "target_in L k = True"

subsection \<open>The invariants of a list at rest\<close>

text \<open>
  The comment above \<open>type lru\<close>: the list owns the nodes between \<open>fakeHead\<close> and
  \<open>fakeTail\<close>; sentinels and owned nodes are a correct doubly linked list; every owned
  node's \<open>owner\<close> is the list; \<open>size\<close> is the sum of the owned nodes' \<open>size()\<close>.
  \<open>chain ns a xs b\<close>: following \<open>next\<close> from \<open>a\<close> passes the nodes \<open>xs\<close> in order and
  reaches \<open>b\<close>, and \<open>prev\<close> leads back the same way.
\<close>

fun chain :: "(nat \<Rightarrow> node) \<Rightarrow> nat \<Rightarrow> nat list \<Rightarrow> nat \<Rightarrow> bool" where
  "chain ns a [] b = (next (ns a) = Some b \<and> prev (ns b) = Some a)"
| "chain ns a (x # xs) b = (next (ns a) = Some x \<and> prev (ns x) = Some a \<and> chain ns x xs b)"

definition lru_inv :: "'a heap_scheme \<Rightarrow> nat \<Rightarrow> nat list \<Rightarrow> bool" where
  "lru_inv h l xs =
     (case (fakeHead (lrus h l), fakeTail (lrus h l)) of
        (Some fh, Some ft) \<Rightarrow>
          fh \<noteq> ft \<and> fh \<notin> set xs \<and> ft \<notin> set xs \<and> distinct xs
          \<and> chain (nodes h) fh xs ft
          \<and> (\<forall>x\<in>set xs. owner (nodes h x) = Some l)
          \<and> size_l (lrus h l) = sum_list (map (\<lambda>x. size_n (nodes h x)) xs)
      | _ \<Rightarrow> False)"

text \<open>
  Several lists in one store (the cache has a hot and a cold one): each list \<open>l\<close> of
  \<open>L\<close> is at rest with the nodes \<open>own l\<close>, and no two lists share a sentinel or a node.
\<close>

definition footprint :: "'a heap_scheme \<Rightarrow> nat \<Rightarrow> nat list \<Rightarrow> nat set" where
  "footprint h l xs =
     set_option (fakeHead (lrus h l)) \<union> set_option (fakeTail (lrus h l)) \<union> set xs"

definition lists_inv :: "'a heap_scheme \<Rightarrow> nat set \<Rightarrow> (nat \<Rightarrow> nat list) \<Rightarrow> bool" where
  "lists_inv h L own =
     ((\<forall>l\<in>L. lru_inv h l (own l))
      \<and> (\<forall>l\<in>L. \<forall>k\<in>L. l \<noteq> k \<longrightarrow> footprint h l (own l) \<inter> footprint h k (own k) = {}))"

subsection \<open>Observing the calls of shrink\<close>

text \<open>
  To state which callbacks \<open>shrink\<close> calls, the store is extended by a log, and each
  callback is wrapped so that a call appends an entry: the callback's name, the node it
  was called with, that node's value and the list's \<open>size\<close> at the moment of the call,
  and whether the callback returned (\<open>False\<close>: it panicked). The wrapped callback itself
  is arbitrary.
\<close>

datatype cb_name = OnExpire | OnActive | OnInactive

record call =
  c_name :: cb_name
  c_node :: nat
  c_value :: node
  c_size :: int64
  c_returned :: bool

record traced_heap = heap +
  calls :: "call list"



text \<open>The store a call ends with, returned or carried by the panic.\<close>

definition final :: "'s res \<Rightarrow> 's" where
  "final r = (case r of Inl (p, s) \<Rightarrow> s | Inr s \<Rightarrow> s)"



text \<open>
  Where a walk that started at \<open>p\<close> stands after the calls of a log: at \<open>p\<close> when nothing
  was called, otherwise at what \<open>next\<close> of the last node called pointed to when its
  callback was called (the loop variable \<open>next\<close> is read before the callback runs).
\<close>

definition stands_at :: "nodeptr \<Rightarrow> call list \<Rightarrow> nodeptr" where
  "stands_at p cs = (if cs = [] then p else next (c_value (last cs)))"

subsection \<open>The walk of shrink in progress\<close>

text \<open>
  The weight of the nodes still to walk: an active node that has not expired counts
  twice, since a callback may put it back once, inactive.
\<close>

definition walk_weight :: "(nat \<Rightarrow> node) \<Rightarrow> int64 \<Rightarrow> nat list \<Rightarrow> nat" where
  "walk_weight ns now zs =
     sum_list (map (\<lambda>x. if \<not> expired (ns x) now \<and> isActive (ns x) then 2 else 1) zs)"

text \<open>
  The state of the list while \<open>shrink\<close> walks it: \<open>cur\<close> is the first of the nodes \<open>zs\<close>
  still owned (the tail sentinel when none is left), the chain runs from \<open>cur\<close> to the
  tail sentinel, and \<open>prev\<close> of \<open>cur\<close> and \<open>next\<close> of the head sentinel are stale until
  the final \<open>link\<close>. The other lists of \<open>L\<close> are at rest.
\<close>

definition seg_inv :: "'a heap_scheme \<Rightarrow> nat \<Rightarrow> nodeptr \<Rightarrow> nat list \<Rightarrow> bool" where
  "seg_inv h l cur zs =
     (case (fakeHead (lrus h l), fakeTail (lrus h l)) of
        (Some fh, Some ft) \<Rightarrow>
          fh \<noteq> ft \<and> fh \<notin> set zs \<and> ft \<notin> set zs \<and> distinct zs
          \<and> (case zs of [] \<Rightarrow> cur = Some ft | z # zs' \<Rightarrow> cur = Some z \<and> chain (nodes h) z zs' ft)
          \<and> (\<forall>x\<in>set zs. owner (nodes h x) = Some l)
          \<and> size_l (lrus h l) = sum_list (map (\<lambda>x. size_n (nodes h x)) zs)
      | _ \<Rightarrow> False)"

definition walk_inv ::
  "'a heap_scheme \<Rightarrow> nat set \<Rightarrow> (nat \<Rightarrow> nat list) \<Rightarrow> nat \<Rightarrow> nodeptr \<Rightarrow> nat list \<Rightarrow> bool" where
  "walk_inv h L own l cur zs =
     (l \<in> L \<and> seg_inv h l cur zs \<and> lists_inv h (L - {l}) own
      \<and> (\<forall>k\<in>L - {l}. footprint h l zs \<inter> footprint h k (own k) = {}))"

text \<open>The callback chosen for a node, among the three kinds a list was built with.\<close>

definition pick :: "cb_kind \<Rightarrow> cb_kind \<Rightarrow> cb_kind \<Rightarrow> node \<Rightarrow> int64 \<Rightarrow> cb_kind" where
  "pick ke ka ki v now = (if expired v now then ke else if isActive v then ka else ki)"

section \<open>Handler construction (package memcached)\<close>

text \<open>
  \<open>func NewHandler()\<close>. The pool (\<open>recycle.NewPool\<close>) and the constant
  \<open>MaxCommandLength\<close> are declared outside src/: the pool's maximum chunk size and the
  constant are parameters, both Go \<open>int\<close>.
\<close>

datatype handler_panic = ChunkSmallerThanInputBuffer

definition NewHandler :: "int64 \<Rightarrow> int64 \<Rightarrow> handler_panic + unit" where
  "NewHandler maxChunkSize MaxCommandLength =
     (if maxChunkSize <s MaxCommandLength then Inl ChunkSmallerThanInputBuffer else Inr ())"

section \<open>The connection (package memcached, conn.go)\<close>

text \<open>
  A connection reads commands from a buffered reader and writes responses to a
  \<open>bufio.Writer\<close>. The model keeps the bytes not yet consumed (\<open>inbuf\<close>), what the writer
  has accepted (\<open>outbuf\<close>), and two logs of calls that leave the connection: the items
  passed to \<open>Cache.Set\<close> and the readers whose \<open>Close\<close> was called, in call order.
\<close>

datatype client_error = ErrTooLargeItem | OtherClientError string

datatype io_error = ErrNegativeCount | ErrShortRead | ErrWrite | OtherIoError string

datatype written =
  WString string
  | WByte char
  | WFlagsBytes int32 int64
  | WData nat

record conn =
  inbuf :: string
  outbuf :: "written list"
  wfailed :: bool
  wops :: nat
  MaxItemSize :: int64
  cache_sets :: "item list"
  closed :: "nat list"

text \<open>
  Modelled from the spec: \<open>ItemView\<close> is declared outside src/. The spec gives a view
  a key, flags, a byte count and a reader that streams and closes; the reader is an
  interface value, \<open>None\<close> being \<open>nil\<close>.
\<close>

record item_view =
  vKey :: string
  vFlags :: int32
  vBytes :: int64
  Reader :: "nat option"

text \<open>
  What conn.go uses and src/ does not declare: the protocol constants, the command
  parser, the helpers \<open>discardCommand\<close> and \<open>readDataBlock\<close> of the reader, and the
  behaviour of the network (\<open>write_fails k\<close>: the \<open>k\<close>-th operation on the writer fails).
\<close>

record protocol =
  Separator :: string
  ValueResponse :: string
  EndResponse :: string
  StoredResponse :: string
  parseSetFields :: "string list \<Rightarrow> item_meta \<times> bool \<times> client_error option"
  discardCommand :: "conn \<Rightarrow> io_error option \<times> conn"
  readDataBlock :: "int64 \<Rightarrow> conn \<Rightarrow> (string \<times> client_error option \<times> io_error option) \<times> conn"
  write_fails :: "nat \<Rightarrow> bool"

text \<open>
  An operation on the \<open>bufio.Writer\<close>: once a write has failed the writer accepts
  nothing more and every later operation returns the error.
\<close>

definition write_op :: "protocol \<Rightarrow> written list \<Rightarrow> conn \<Rightarrow> io_error option \<times> conn" where
  "write_op p ws c =
     (if wfailed c \<or> write_fails p (wops c)
      then (Some ErrWrite, c\<lparr>wfailed := True, wops := Suc (wops c)\<rparr>)
      else (None, c\<lparr>outbuf := outbuf c @ ws, wops := Suc (wops c)\<rparr>))"

text \<open>\<open>func (c *conn) Flush() error\<close>\<close>

definition Flush :: "protocol \<Rightarrow> conn \<Rightarrow> io_error option \<times> conn" where
  "Flush p c = write_op p [] c"

text \<open>\<open>func (c *conn) sendResponse(res string) error\<close>\<close>

definition sendResponse :: "protocol \<Rightarrow> string \<Rightarrow> conn \<Rightarrow> io_error option \<times> conn" where
  "sendResponse p res c =
     (let c1 = snd (write_op p [WString res] c);
          c2 = snd (write_op p [WString (Separator p)] c1)
      in Flush p c2)"

text \<open>
  Modelled from Go's \<open>bufio.Reader.Discard\<close> (the type \<open>reader\<close> that \<open>conn\<close> embeds
  is declared outside src/): a negative count is an error and skips nothing; otherwise
  the next \<open>n\<close> bytes are skipped, with an error when fewer are there.
\<close>

definition Discard :: "int64 \<Rightarrow> conn \<Rightarrow> io_error option \<times> conn" where
  "Discard n c =
     (if n <s 0 then (Some ErrNegativeCount, c)
      else if unat n \<le> length (inbuf c) then (None, c\<lparr>inbuf := drop (unat n) (inbuf c)\<rparr>)
      else (Some ErrShortRead, c\<lparr>inbuf := []\<rparr>))"

text \<open>
  \<open>func (c *conn) set(fields [][]byte) (clientErr, err error)\<close>; the result is
  \<open>(clientErr, err)\<close> and the connection.
\<close>

definition set_cmd ::
  "protocol \<Rightarrow> string list \<Rightarrow> conn \<Rightarrow> (client_error option \<times> io_error option) \<times> conn" where
  "set_cmd p flds c =
     (case parseSetFields p flds of (meta, noreply, clientErr) \<Rightarrow>
        if clientErr \<noteq> None then
          (case discardCommand p c of (err, c1) \<Rightarrow> ((clientErr, err), c1))
        else if MaxItemSize c <s Bytes meta then
          (case Discard (Bytes meta + of_nat (length (Separator p))) c of
             (err, c1) \<Rightarrow> ((Some ErrTooLargeItem, err), c1))
        else
          (case readDataBlock p (Bytes meta) c of ((data, clientErr1, err1), c1) \<Rightarrow>
             if err1 \<noteq> None \<or> clientErr1 \<noteq> None then ((clientErr1, err1), c1)
             else
               (let i = \<lparr>Key = Key meta, Flags = Flags meta, Expiry = Expiry meta,
                         Bytes = Bytes meta, Data = data\<rparr>;
                    c2 = c1\<lparr>cache_sets := cache_sets c1 @ [i]\<rparr>
                in if noreply then (case Flush p c2 of (err, c3) \<Rightarrow> ((None, err), c3))
                   else (case sendResponse p (StoredResponse p) c2 of
                           (err, c3) \<Rightarrow> ((None, err), c3)))))"

text \<open>
  \<open>func (c *conn) sendGetResponse(views []cache.ItemView) error\<close>. The outcome of the
  loop is a return with its error, or the panic of a call on a nil reader; either way
  it leaves \<open>readerIndex\<close> where the loop stopped, for the deferred function.
\<close>

datatype 'e outcome = Returned 'e | Panicked

function sendGetResponse_loop ::
  "protocol \<Rightarrow> item_view list \<Rightarrow> nat \<Rightarrow> conn \<Rightarrow> (io_error option) outcome \<times> nat \<times> conn" where
  "sendGetResponse_loop p views readerIndex c =
     (if readerIndex < length views then
        (let view = views ! readerIndex;
             c1 = snd (write_op p [WString (ValueResponse p)] c);
             c2 = snd (write_op p [WByte CHR '' ''] c1);
             c3 = snd (write_op p [WString (vKey view)] c2);
             c4 = snd (write_op p [WFlagsBytes (vFlags view) (vBytes view),
                                   WString (Separator p)] c3)
         in case Reader view of
              None \<Rightarrow> (Panicked, readerIndex, c4)
            | Some r \<Rightarrow>
                (let c5 = snd (write_op p [WData r] c4) in
                 case write_op p [WString (Separator p)] c5 of
                   (Some err, c6) \<Rightarrow> (Returned (Some err), readerIndex, c6)
                 | (None, c6) \<Rightarrow>
                     sendGetResponse_loop p views (Suc readerIndex)
                       (c6\<lparr>closed := closed c6 @ [r]\<rparr>)))
      else (case sendResponse p (EndResponse p) c of
              (err, c1) \<Rightarrow> (Returned err, readerIndex, c1)))"
  by pat_completeness auto
termination
  by (relation "measure (\<lambda>(p, views, readerIndex, c). length views - readerIndex)") auto

text \<open>
  The deferred function of \<open>sendGetResponse\<close>: it closes the readers from
  \<open>readerIndex\<close> on; \<open>Close\<close> on a nil reader panics.
\<close>

function close_rest :: "item_view list \<Rightarrow> nat \<Rightarrow> conn \<Rightarrow> unit outcome \<times> conn" where
  "close_rest views readerIndex c =
     (if readerIndex < length views then
        (case Reader (views ! readerIndex) of
           None \<Rightarrow> (Panicked, c)
         | Some r \<Rightarrow> close_rest views (Suc readerIndex) (c\<lparr>closed := closed c @ [r]\<rparr>))
      else (Returned (), c))"
  by pat_completeness auto
termination
  by (relation "measure (\<lambda>(views, readerIndex, c). length views - readerIndex)") auto

definition sendGetResponse ::
  "protocol \<Rightarrow> item_view list \<Rightarrow> conn \<Rightarrow> (io_error option) outcome \<times> conn" where
  "sendGetResponse p views c =
     (case sendGetResponse_loop p views 0 c of
        (r, readerIndex, c1) \<Rightarrow>
          (case close_rest views readerIndex c1 of
             (Panicked, c2) \<Rightarrow> (Panicked, c2)
           | (Returned u, c2) \<Rightarrow> (r, c2)))"

section \<open>Concrete states\<close>

text \<open>
  A protocol with the separator CR LF whose parser reads every SET as an item of five
  bytes, a network that never fails, and a connection whose maximum item size is
  three bytes, with eleven bytes waiting in the reader.
\<close>

definition ex_protocol :: protocol where
  "ex_protocol =
     \<lparr>Separator = [CHR 0x0D, CHR 0x0A],
      ValueResponse = ''VALUE'',
      EndResponse = ''END'',
      StoredResponse = ''STORED'',
      parseSetFields = (\<lambda>flds. (\<lparr>Key = ''k'', Flags = 0, Expiry = None, Bytes = 5\<rparr>, False, None)),
      discardCommand = (\<lambda>c. (None, c)),
      readDataBlock = (\<lambda>n c. ((take (unat n) (inbuf c), None, None),
                                 c\<lparr>inbuf := drop (unat n + 2) (inbuf c)\<rparr>)),
      write_fails = (\<lambda>k. False)\<rparr>"

definition ex_conn :: conn where
  "ex_conn =
     \<lparr>inbuf = ''hello'' @ [CHR 0x0D, CHR 0x0A] @ ''nextcmd'',
      outbuf = [],
      wfailed = False,
      wops = 0,
      MaxItemSize = 3,
      cache_sets = [],
      closed = []\<rparr>"

text \<open>
  A store with two lists. List 0 has the sentinels 0 and 1 and owns the nodes 2 (active)
  and 3 (inactive), each of size 256 + 1 + 100; list 1 has the sentinels 10 and 11 and
  owns the node 12 (active), of size 256 + 1 + 10. Node 4 is owned by no list. No node
  has an expiry.
\<close>

definition mk_node :: "string \<Rightarrow> int64 \<Rightarrow> int32 \<Rightarrow> lruptr \<Rightarrow> nodeptr \<Rightarrow> nodeptr \<Rightarrow> node" where
  "mk_node k b a ow p n =
     \<lparr>Item = \<lparr>Key = k, Flags = 0, Expiry = None, Bytes = b, Data = []\<rparr>,
      active = a, owner = ow, prev = p, next = n\<rparr>"

definition ex_nodes :: "nat \<Rightarrow> node" where
  "ex_nodes =
     (\<lambda>a. mk_node [] 0 0 None None None)
       (0 := mk_node [] 0 0 None None (Some 2),
        1 := mk_node [] 0 0 None (Some 3) None,
        2 := mk_node ''a'' 100 1 (Some 0) (Some 0) (Some 3),
        3 := mk_node ''b'' 100 0 (Some 0) (Some 2) (Some 1),
        4 := mk_node ''c'' 50 1 None None None,
        10 := mk_node [] 0 0 None None (Some 12),
        11 := mk_node [] 0 0 None (Some 12) None,
        12 := mk_node ''d'' 10 1 (Some 1) (Some 10) (Some 11))"

definition ex_lrus :: "nat \<Rightarrow> lru" where
  "ex_lrus =
     (\<lambda>l. \<lparr>size_l = 0, fakeHead = None, fakeTail = None\<rparr>)
       (0 := \<lparr>size_l = 714, fakeHead = Some 0, fakeTail = Some 1\<rparr>,
        1 := \<lparr>size_l = 267, fakeHead = Some 10, fakeTail = Some 11\<rparr>)"

definition ex_heap :: heap where
  "ex_heap = \<lparr>nodes = ex_nodes, lrus = ex_lrus\<rparr>"

definition ex_own :: "nat \<Rightarrow> nat list" where
  "ex_own = (\<lambda>l. [])(0 := [2, 3], 1 := [12])"

text \<open>
  A store with an empty log, for the walk of \<open>shrink\<close>. List 0 has the sentinels 0 and 1
  and owns four nodes, each of size 256 + 1 + 100: node 2 (active, expired since time
  10), node 3 (active, no expiry), node 5 (inactive, expiring at time 100) and node 6
  (inactive, no expiry). List 1 has the sentinels 10 and 11 and owns no node.
\<close>

definition with_expiry :: "int64 \<Rightarrow> node \<Rightarrow> node" where
  "with_expiry e v = v\<lparr>Item := (Item v)\<lparr>Expiry := Some e\<rparr>\<rparr>"

definition ex_traced :: traced_heap where
  "ex_traced =
     \<lparr>nodes =
        (\<lambda>a. mk_node [] 0 0 None None None)
          (0 := mk_node [] 0 0 None None (Some 2),
           1 := mk_node [] 0 0 None (Some 6) None,
           2 := with_expiry 10 (mk_node ''a'' 100 1 (Some 0) (Some 0) (Some 3)),
           3 := mk_node ''b'' 100 1 (Some 0) (Some 2) (Some 5),
           5 := with_expiry 100 (mk_node ''c'' 100 0 (Some 0) (Some 3) (Some 6)),
           6 := mk_node ''d'' 100 0 (Some 0) (Some 5) (Some 1),
           10 := mk_node [] 0 0 None None (Some 11),
           11 := mk_node [] 0 0 None (Some 10) None),
      lrus =
        (\<lambda>l. \<lparr>size_l = 0, fakeHead = None, fakeTail = None\<rparr>)
          (0 := \<lparr>size_l = 1428, fakeHead = Some 0, fakeTail = Some 1\<rparr>,
           1 := \<lparr>size_l = 0, fakeHead = Some 10, fakeTail = Some 11\<rparr>),
      calls = []\<rparr>"

definition ex_traced_own :: "nat \<Rightarrow> nat list" where
  "ex_traced_own = (\<lambda>l. [])(0 := [2, 3, 5, 6])"

definition ex_views :: "item_view list" where
  "ex_views =
     [\<lparr>vKey = ''a'', vFlags = 0, vBytes = 1, Reader = Some 7\<rparr>,
      \<lparr>vKey = ''b'', vFlags = 0, vBytes = 2, Reader = Some 8\<rparr>]"

section \<open>Properties of the LRU list\<close>

subsection \<open>Stores, chains and lists at rest\<close>

lemma nodes_upd_node [simp]: "nodes (upd_node p f h) = (nodes h)(p := f (nodes h p))"
  by (simp add: upd_node_def)

lemma lrus_upd_node [simp]: "lrus (upd_node p f h) = lrus h"
  by (simp add: upd_node_def)

lemma nodes_upd_lru [simp]: "nodes (upd_lru l f h) = nodes h"
  by (simp add: upd_lru_def)

lemma lrus_upd_lru [simp]: "lrus (upd_lru l f h) = (lrus h)(l := f (lrus h l))"
  by (simp add: upd_lru_def)

lemma chain_cong:
  "\<forall>y\<in>insert a (set xs). next (ns' y) = next (ns y) \<Longrightarrow>
   \<forall>y\<in>insert b (set xs). prev (ns' y) = prev (ns y) \<Longrightarrow>
   chain ns' a xs b = chain ns a xs b"
  by (induction xs arbitrary: a) auto

lemma chain_snoc:
  "chain ns a (xs @ [x]) b = (chain ns a xs x \<and> next (ns x) = Some b \<and> prev (ns b) = Some x)"
  by (induction xs arbitrary: a) auto

lemma chain_prev_last: "chain ns a xs b \<Longrightarrow> prev (ns b) = Some (last (a # xs))"
  by (induction xs arbitrary: a) auto

lemma chain_next_first: "chain ns a xs b \<Longrightarrow> next (ns a) = Some (hd (xs @ [b]))"
  by (cases xs) auto

lemma link_Some:
  "link (Some a) (Some b) h
     = Inr (upd_node b (\<lambda>x. x\<lparr>prev := Some a\<rparr>) (upd_node a (\<lambda>x. x\<lparr>next := Some b\<rparr>) h))"
  by (simp add: link_def)

lemma size_n_upd [simp]:
  "size_n (v\<lparr>owner := ow\<rparr>) = size_n v"
  "size_n (v\<lparr>active := ac\<rparr>) = size_n v"
  "size_n (v\<lparr>prev := pv\<rparr>) = size_n v"
  "size_n (v\<lparr>next := nv\<rparr>) = size_n v"
  by (simp_all add: size_n_def)

text \<open>The store after attachAsInactive and after pushBack.\<close>

lemma attachAsInactive_result:
  assumes "owner (nodes h n) = Some l" "fakeTail (lrus h l) = Some ft"
    "prev (nodes h ft) = Some p" "n \<noteq> ft" "n \<noteq> p" "p \<noteq> ft"
  shows "attachAsInactive n h
     = Inr (h\<lparr>nodes := (nodes h)
              (p := (nodes h p)\<lparr>next := Some n\<rparr>,
               ft := (nodes h ft)\<lparr>prev := Some n\<rparr>,
               n := (nodes h n)\<lparr>active := inactive_c, prev := Some p, next := Some ft\<rparr>)\<rparr>)"
  using assms
  by (auto simp: attachAsInactive_def tail_def link_Some Let_def upd_node_def fun_eq_iff)

lemma attachAsInactive_last_result:
  assumes "owner (nodes h n) = Some l" "fakeTail (lrus h l) = Some ft"
    "prev (nodes h ft) = Some n" "n \<noteq> ft"
  shows "attachAsInactive n h
     = Inr (h\<lparr>nodes := (nodes h)
              (ft := (nodes h ft)\<lparr>prev := Some n\<rparr>,
               n := (nodes h n)\<lparr>active := inactive_c, prev := Some n, next := Some ft\<rparr>)\<rparr>)"
  using assms
  by (auto simp: attachAsInactive_def tail_def link_Some Let_def upd_node_def fun_eq_iff)

lemma pushBack_result:
  assumes "fakeTail (lrus h l) = Some ft"
    "prev (nodes h ft) = Some p" "n \<noteq> ft" "n \<noteq> p" "p \<noteq> ft"
  shows "pushBack l n h
     = Inr (h\<lparr>nodes := (nodes h)
              (p := (nodes h p)\<lparr>next := Some n\<rparr>,
               ft := (nodes h ft)\<lparr>prev := Some n\<rparr>,
               n := (nodes h n)\<lparr>owner := Some l, active := inactive_c,
                                 prev := Some p, next := Some ft\<rparr>),
             lrus := (lrus h)
              (l := (lrus h l)\<lparr>size_l := size_l (lrus h l) + size_n (nodes h n)\<rparr>)\<rparr>)"
proof -
  let ?h2 = "upd_lru l (\<lambda>r. r\<lparr>size_l := size_l r + size_n (nodes h n)\<rparr>)
               (upd_node n (\<lambda>x. x\<lparr>owner := Some l\<rparr>) h)"
  have "attachAsInactive n ?h2
     = Inr (?h2\<lparr>nodes := (nodes ?h2)
              (p := (nodes ?h2 p)\<lparr>next := Some n\<rparr>,
               ft := (nodes ?h2 ft)\<lparr>prev := Some n\<rparr>,
               n := (nodes ?h2 n)\<lparr>active := inactive_c, prev := Some p, next := Some ft\<rparr>)\<rparr>)"
    using assms by (intro attachAsInactive_result[where l = l]) simp_all
  then show ?thesis
    using assms by (simp add: pushBack_def Let_def upd_node_def upd_lru_def fun_upd_twist)
qed

lemma disown_result:
  assumes "owner (nodes h n) = Some l"
  shows "disown dbg n h
     = Inr (h\<lparr>nodes := (if dbg then (nodes h)(n := (nodes h n)\<lparr>owner := None\<rparr>) else nodes h),
             lrus := (lrus h)
              (l := (lrus h l)\<lparr>size_l := size_l (lrus h l) - size_n (nodes h n)\<rparr>)\<rparr>)"
  using assms by (simp add: disown_def Let_def upd_node_def upd_lru_def)


lemma lru_invI:
  "fakeHead (lrus h l) = Some fh \<Longrightarrow> fakeTail (lrus h l) = Some ft \<Longrightarrow> fh \<noteq> ft \<Longrightarrow>
   fh \<notin> set xs \<Longrightarrow> ft \<notin> set xs \<Longrightarrow> distinct xs \<Longrightarrow> chain (nodes h) fh xs ft \<Longrightarrow>
   (\<And>x. x \<in> set xs \<Longrightarrow> owner (nodes h x) = Some l) \<Longrightarrow>
   size_l (lrus h l) = sum_list (map (\<lambda>x. size_n (nodes h x)) xs) \<Longrightarrow>
   lru_inv h l xs"
  by (simp add: lru_inv_def)

lemma lru_invE:
  assumes "lru_inv h l xs"
  obtains fh ft where "fakeHead (lrus h l) = Some fh" "fakeTail (lrus h l) = Some ft" "fh \<noteq> ft"
    "fh \<notin> set xs" "ft \<notin> set xs" "distinct xs" "chain (nodes h) fh xs ft"
    "\<forall>x\<in>set xs. owner (nodes h x) = Some l"
    "size_l (lrus h l) = sum_list (map (\<lambda>x. size_n (nodes h x)) xs)"
    "footprint h l xs = {fh, ft} \<union> set xs"
  using assms by (auto simp: lru_inv_def footprint_def split: option.splits)

lemma seg_invI:
  "fakeHead (lrus h l) = Some fh \<Longrightarrow> fakeTail (lrus h l) = Some ft \<Longrightarrow> fh \<noteq> ft \<Longrightarrow>
   fh \<notin> set zs \<Longrightarrow> ft \<notin> set zs \<Longrightarrow> distinct zs \<Longrightarrow>
   (case zs of [] \<Rightarrow> cur = Some ft | z # zs' \<Rightarrow> cur = Some z \<and> chain (nodes h) z zs' ft) \<Longrightarrow>
   (\<And>x. x \<in> set zs \<Longrightarrow> owner (nodes h x) = Some l) \<Longrightarrow>
   size_l (lrus h l) = sum_list (map (\<lambda>x. size_n (nodes h x)) zs) \<Longrightarrow>
   seg_inv h l cur zs"
  by (simp add: seg_inv_def)

lemma seg_invE:
  assumes "seg_inv h l cur zs"
  obtains fh ft where "fakeHead (lrus h l) = Some fh" "fakeTail (lrus h l) = Some ft" "fh \<noteq> ft"
    "fh \<notin> set zs" "ft \<notin> set zs" "distinct zs"
    "case zs of [] \<Rightarrow> cur = Some ft | z # zs' \<Rightarrow> cur = Some z \<and> chain (nodes h) z zs' ft"
    "\<forall>x\<in>set zs. owner (nodes h x) = Some l"
    "size_l (lrus h l) = sum_list (map (\<lambda>x. size_n (nodes h x)) zs)"
    "footprint h l zs = {fh, ft} \<union> set zs"
  using assms by (auto simp: seg_inv_def footprint_def split: option.splits)

lemma chain_push:
  assumes "chain ns a xs b" "distinct (a # xs)"
    and "\<forall>y\<in>set (a # xs). next (ns' y) = (if y = last (a # xs) then Some n else next (ns y))"
    and "\<forall>y\<in>set xs. prev (ns' y) = prev (ns y)"
    and "next (ns' n) = Some b" "prev (ns' n) = Some (last (a # xs))" "prev (ns' b) = Some n"
  shows "chain ns' a (xs @ [n]) b"
  using assms
proof (induction xs arbitrary: a)
  case Nil
  then show ?case by simp
next
  case (Cons x xs)
  have "a \<noteq> last (x # xs)" using Cons.prems(2) by (metis distinct.simps(2) last_in_set list.discI)
  then have na: "next (ns' a) = next (ns a)" using Cons.prems(3) by simp
  have "chain ns' x (xs @ [n]) b"
    using Cons.prems by (intro Cons.IH) auto
  then show ?case using Cons.prems na by simp
qed

lemma lru_inv_frame:
  assumes "lru_inv h k xs" "lrus h' k = lrus h k" "\<forall>y\<in>footprint h k xs. nodes h' y = nodes h y"
  shows "lru_inv h' k xs" and "footprint h' k xs = footprint h k xs"
proof -
  from assms(1) obtain fh ft where i: "fakeHead (lrus h k) = Some fh" "fakeTail (lrus h k) = Some ft"
    "fh \<noteq> ft" "fh \<notin> set xs" "ft \<notin> set xs" "distinct xs" "chain (nodes h) fh xs ft"
    "\<forall>x\<in>set xs. owner (nodes h x) = Some k"
    "size_l (lrus h k) = sum_list (map (\<lambda>x. size_n (nodes h x)) xs)"
    "footprint h k xs = {fh, ft} \<union> set xs"
    by (rule lru_invE)
  have eq: "\<forall>y\<in>{fh, ft} \<union> set xs. nodes h' y = nodes h y" using assms(3) i(10) by simp
  have c: "chain (nodes h') fh xs ft" using i(7) eq by (subst chain_cong[where ns = "nodes h"]) auto
  have "sum_list (map (\<lambda>x. size_n (nodes h' x)) xs) = sum_list (map (\<lambda>x. size_n (nodes h x)) xs)"
    using eq by (intro arg_cong[where f = sum_list] map_cong) auto
  then have s: "size_l (lrus h' k) = sum_list (map (\<lambda>x. size_n (nodes h' x)) xs)"
    using i(9) assms(2) by simp
  have o: "\<And>x. x \<in> set xs \<Longrightarrow> owner (nodes h' x) = Some k" using i(8) eq by simp
  show "lru_inv h' k xs"
    using i(1-6) assms(2) c s o by (intro lru_invI[where fh = fh and ft = ft]) simp_all
  show "footprint h' k xs = footprint h k xs" using assms(2) by (simp add: footprint_def)
qed

lemma lists_inv_frame:
  assumes "lists_inv h L own" "\<forall>k\<in>L. lrus h' k = lrus h k"
    "\<forall>k\<in>L. \<forall>y\<in>footprint h k (own k). nodes h' y = nodes h y"
  shows "lists_inv h' L own"
  using assms lru_inv_frame[of h _ "own _" h']
  unfolding lists_inv_def by (metis (no_types, lifting))


lemma sum_sizes_cong:
  "\<forall>y\<in>set xs. Item (ns' y) = Item (ns y) \<Longrightarrow>
   sum_list (map (\<lambda>x. size_n (ns' x)) xs) = sum_list (map (\<lambda>x. size_n (ns x)) xs)"
  by (intro arg_cong[where f = sum_list] map_cong) (auto simp: size_n_def)

text \<open>pushBack on a list at rest, of a node outside it.\<close>

lemma lru_inv_pushBack:
  assumes inv: "lru_inv h l xs" and n: "n \<notin> footprint h l xs"
  shows "\<exists>h'. pushBack l n h = Inr h' \<and> lru_inv h' l (xs @ [n])
           \<and> footprint h' l (xs @ [n]) = insert n (footprint h l xs)
           \<and> (\<forall>j. j \<noteq> l \<longrightarrow> lrus h' j = lrus h j)
           \<and> (\<forall>y. y \<notin> insert n (footprint h l xs) \<longrightarrow> nodes h' y = nodes h y)
           \<and> (\<forall>y. Item (nodes h' y) = Item (nodes h y))
           \<and> (\<forall>y. y \<noteq> n \<longrightarrow> active (nodes h' y) = active (nodes h y))
           \<and> active (nodes h' n) = inactive_c
           \<and> size_l (lrus h' l) = size_l (lrus h l) + size_n (nodes h n)
           \<and> heap.more h' = heap.more h"
proof -
  from inv obtain fh ft where i: "fakeHead (lrus h l) = Some fh" "fakeTail (lrus h l) = Some ft"
    "fh \<noteq> ft" "fh \<notin> set xs" "ft \<notin> set xs" "distinct xs" "chain (nodes h) fh xs ft"
    "\<forall>x\<in>set xs. owner (nodes h x) = Some l"
    "size_l (lrus h l) = sum_list (map (\<lambda>x. size_n (nodes h x)) xs)"
    "footprint h l xs = {fh, ft} \<union> set xs"
    by (rule lru_invE)
  define p where "p = last (fh # xs)"
  have pin: "p \<in> set (fh # xs)" unfolding p_def by (rule last_in_set) simp
  have pft: "prev (nodes h ft) = Some p" using chain_prev_last[OF i(7)] by (simp add: p_def)
  have ne: "n \<noteq> ft" "n \<noteq> p" "p \<noteq> ft" "n \<noteq> fh" "n \<notin> set xs"
    using n i(10) pin i(3,5) by auto
  define h' where "h' = h\<lparr>nodes := (nodes h)
              (p := (nodes h p)\<lparr>next := Some n\<rparr>,
               ft := (nodes h ft)\<lparr>prev := Some n\<rparr>,
               n := (nodes h n)\<lparr>owner := Some l, active := inactive_c,
                                 prev := Some p, next := Some ft\<rparr>),
             lrus := (lrus h)
              (l := (lrus h l)\<lparr>size_l := size_l (lrus h l) + size_n (nodes h n)\<rparr>)\<rparr>"
  have r: "pushBack l n h = Inr h'"
    unfolding h'_def using i(2) pft ne(1-3) by (rule pushBack_result)
  have c: "chain (nodes h') fh (xs @ [n]) ft"
  proof (rule chain_push[OF i(7)])
    show "distinct (fh # xs)" using i(4,6) by simp
    show "\<forall>y\<in>set (fh # xs). next (nodes h' y) = (if y = last (fh # xs) then Some n else next (nodes h y))"
      using ne i(3,5) by (auto simp: h'_def p_def)
    show "\<forall>y\<in>set xs. prev (nodes h' y) = prev (nodes h y)"
      using ne i(5) by (auto simp: h'_def)
    show "next (nodes h' n) = Some ft" by (simp add: h'_def)
    show "prev (nodes h' n) = Some (last (fh # xs))" by (simp add: h'_def p_def)
    show "prev (nodes h' ft) = Some n" using ne by (simp add: h'_def)
  qed
  have it: "\<forall>y. Item (nodes h' y) = Item (nodes h y)" by (simp add: h'_def)
  have "sum_list (map (\<lambda>x. size_n (nodes h' x)) (xs @ [n]))
          = sum_list (map (\<lambda>x. size_n (nodes h x)) (xs @ [n]))"
    using it by (intro sum_sizes_cong) simp
  then have sz: "size_l (lrus h' l) = sum_list (map (\<lambda>x. size_n (nodes h' x)) (xs @ [n]))"
    using i(9) by (simp add: h'_def)
  have ow: "\<And>x. x \<in> set (xs @ [n]) \<Longrightarrow> owner (nodes h' x) = Some l"
    using i(8) ne i(5) by (auto simp: h'_def)
  have inv': "lru_inv h' l (xs @ [n])"
    using i(1-6) ne c ow sz
    by (intro lru_invI[where fh = fh and ft = ft]) (simp_all add: h'_def)
  have fp: "footprint h' l (xs @ [n]) = insert n (footprint h l xs)"
    using i(1,2) by (auto simp: footprint_def h'_def)
  have fr: "\<forall>y. y \<notin> insert n (footprint h l xs) \<longrightarrow> nodes h' y = nodes h y"
    using pin i(10) by (auto simp: h'_def)
  have ac: "\<forall>y. y \<noteq> n \<longrightarrow> active (nodes h' y) = active (nodes h y)"
    by (simp add: h'_def)
  show ?thesis
    using r inv' fp fr it ac by (simp add: h'_def)
qed


lemma lists_inv_pushBack:
  assumes inv: "lists_inv h M own" and k: "k \<in> M"
    and n: "\<forall>j\<in>M. n \<notin> footprint h j (own j)"
  shows "\<exists>h'. pushBack k n h = Inr h' \<and> lists_inv h' M (own(k := own k @ [n]))
           \<and> footprint h' k (own k @ [n]) = insert n (footprint h k (own k))
           \<and> (\<forall>j\<in>M. j \<noteq> k \<longrightarrow> footprint h' j (own j) = footprint h j (own j))
           \<and> (\<forall>j. j \<noteq> k \<longrightarrow> lrus h' j = lrus h j)
           \<and> (\<forall>y. y \<notin> insert n (footprint h k (own k)) \<longrightarrow> nodes h' y = nodes h y)
           \<and> (\<forall>y. Item (nodes h' y) = Item (nodes h y))
           \<and> (\<forall>y. y \<noteq> n \<longrightarrow> active (nodes h' y) = active (nodes h y))
           \<and> active (nodes h' n) = inactive_c
           \<and> size_l (lrus h' k) = size_l (lrus h k) + size_n (nodes h n)
           \<and> heap.more h' = heap.more h"
proof -
  have ik: "lru_inv h k (own k)" and nk: "n \<notin> footprint h k (own k)"
    using inv k n by (auto simp: lists_inv_def)
  from lru_inv_pushBack[OF ik nk] obtain h' where
    h': "pushBack k n h = Inr h'" "lru_inv h' k (own k @ [n])"
      "footprint h' k (own k @ [n]) = insert n (footprint h k (own k))"
      "\<forall>j. j \<noteq> k \<longrightarrow> lrus h' j = lrus h j"
      "\<forall>y. y \<notin> insert n (footprint h k (own k)) \<longrightarrow> nodes h' y = nodes h y"
      "\<forall>y. Item (nodes h' y) = Item (nodes h y)"
      "\<forall>y. y \<noteq> n \<longrightarrow> active (nodes h' y) = active (nodes h y)"
      "active (nodes h' n) = inactive_c"
      "size_l (lrus h' k) = size_l (lrus h k) + size_n (nodes h n)"
      "heap.more h' = heap.more h"
    by blast
  have other: "lru_inv h' j (own j) \<and> footprint h' j (own j) = footprint h j (own j)"
    if j: "j \<in> M" "j \<noteq> k" for j
  proof -
    have ij: "lru_inv h j (own j)" using inv j by (simp add: lists_inv_def)
    have dj: "footprint h j (own j) \<inter> footprint h k (own k) = {}"
      using inv j k by (simp add: lists_inv_def)
    have "\<forall>y\<in>footprint h j (own j). nodes h' y = nodes h y"
      using h'(5) dj n j(1) by auto
    then show ?thesis
      using lru_inv_frame[OF ij, of h'] h'(4) j(2) by simp
  qed
  have li: "lists_inv h' M (own(k := own k @ [n]))"
    unfolding lists_inv_def
  proof (intro conjI ballI impI)
    fix j assume "j \<in> M"
    then show "lru_inv h' j ((own(k := own k @ [n])) j)"
      using h'(2) other by (cases "j = k") simp_all
  next
    fix i j assume ij: "i \<in> M" "j \<in> M" "i \<noteq> j"
    have d: "footprint h i (own i) \<inter> footprint h j (own j) = {}"
      using inv ij by (simp add: lists_inv_def)
    show "footprint h' i ((own(k := own k @ [n])) i) \<inter> footprint h' j ((own(k := own k @ [n])) j) = {}"
    proof (cases "i = k")
      case True
      then show ?thesis using h'(3) other[of j] ij d n by auto
    next
      case False
      then show ?thesis using h'(3) other[of i] other[of j] ij d n by (cases "j = k") auto
    qed
  qed
  show ?thesis
    using h' li other by blast
qed


lemma lists_inv_subset: "lists_inv h L own \<Longrightarrow> M \<subseteq> L \<Longrightarrow> lists_inv h M own"
  unfolding lists_inv_def by (meson subsetD)

lemma walk_inv_start:
  assumes inv: "lists_inv h L own" and l: "l \<in> L"
  shows "\<exists>c. head h l = Inr (Some c) \<and> walk_inv h L own l (Some c) (own l)"
proof -
  have il: "lru_inv h l (own l)" using inv l by (simp add: lists_inv_def)
  then obtain fh ft where i: "fakeHead (lrus h l) = Some fh" "fakeTail (lrus h l) = Some ft"
    "fh \<noteq> ft" "fh \<notin> set (own l)" "ft \<notin> set (own l)" "distinct (own l)"
    "chain (nodes h) fh (own l) ft"
    "\<forall>x\<in>set (own l). owner (nodes h x) = Some l"
    "size_l (lrus h l) = sum_list (map (\<lambda>x. size_n (nodes h x)) (own l))"
    "footprint h l (own l) = {fh, ft} \<union> set (own l)"
    by (rule lru_invE)
  define c where "c = hd (own l @ [ft])"
  have hd: "head h l = Inr (Some c)"
    using i(1) chain_next_first[OF i(7)] by (simp add: head_def c_def)
  have cs: "case own l of [] \<Rightarrow> Some c = Some ft
            | z # zs' \<Rightarrow> Some c = Some z \<and> chain (nodes h) z zs' ft"
    using i(7) by (cases "own l") (simp_all add: c_def)
  have seg: "seg_inv h l (Some c) (own l)"
    using i(1-6) cs i(8,9) by (intro seg_invI[where fh = fh and ft = ft]) simp_all
  have "lists_inv h (L - {l}) own" using inv by (rule lists_inv_subset) auto
  moreover have "\<forall>k\<in>L - {l}. footprint h l (own l) \<inter> footprint h k (own k) = {}"
    using inv l by (simp add: lists_inv_def)
  ultimately show ?thesis using hd seg l by (auto simp: walk_inv_def)
qed

lemma walk_inv_finish:
  assumes w: "walk_inv h L own l cur zs"
  shows "\<exists>h'. link (fakeHead (lrus h l)) cur h = Inr h' \<and> lists_inv h' L (own(l := zs))
           \<and> lrus h' = lrus h"
proof -
  from w have seg: "seg_inv h l cur zs" and l: "l \<in> L"
    and oth: "lists_inv h (L - {l}) own"
    and dis: "\<forall>k\<in>L - {l}. footprint h l zs \<inter> footprint h k (own k) = {}"
    by (simp_all add: walk_inv_def)
  from seg obtain fh ft where i: "fakeHead (lrus h l) = Some fh" "fakeTail (lrus h l) = Some ft"
    "fh \<noteq> ft" "fh \<notin> set zs" "ft \<notin> set zs" "distinct zs"
    "case zs of [] \<Rightarrow> cur = Some ft | z # zs' \<Rightarrow> cur = Some z \<and> chain (nodes h) z zs' ft"
    "\<forall>x\<in>set zs. owner (nodes h x) = Some l"
    "size_l (lrus h l) = sum_list (map (\<lambda>x. size_n (nodes h x)) zs)"
    "footprint h l zs = {fh, ft} \<union> set zs"
    by (rule seg_invE)
  define c where "c = hd (zs @ [ft])"
  have cur: "cur = Some c" using i(7) by (cases zs) (simp_all add: c_def)
  have cin: "c \<in> footprint h l zs" "c \<noteq> fh"
    using i(10) i(3,4) by (cases zs; simp add: c_def)+
  define h' where "h' = upd_node c (\<lambda>x. x\<lparr>prev := Some fh\<rparr>) (upd_node fh (\<lambda>x. x\<lparr>next := Some c\<rparr>) h)"
  have r: "link (fakeHead (lrus h l)) cur h = Inr h'"
    by (simp add: i(1) cur link_Some h'_def)
  have c: "chain (nodes h') fh zs ft"
  proof (cases zs)
    case Nil
    then show ?thesis using i(3) by (simp add: h'_def c_def)
  next
    case (Cons z zs')
    then have cz: "c = z" and ch: "chain (nodes h) z zs' ft" using i(7) by (simp_all add: c_def)
    have "chain (nodes h') z zs' ft = chain (nodes h) z zs' ft"
      using Cons i(3-6) cz by (intro chain_cong) (auto simp: h'_def)
    then show ?thesis using Cons ch cz i(3,4) by (simp add: h'_def)
  qed
  have "sum_list (map (\<lambda>x. size_n (nodes h' x)) zs) = sum_list (map (\<lambda>x. size_n (nodes h x)) zs)"
    by (intro sum_sizes_cong) (simp add: h'_def)
  then have sz: "size_l (lrus h' l) = sum_list (map (\<lambda>x. size_n (nodes h' x)) zs)"
    using i(9) by (simp add: h'_def)
  have ow: "\<And>x. x \<in> set zs \<Longrightarrow> owner (nodes h' x) = Some l"
    using i(8) by (auto simp: h'_def)
  have il: "lru_inv h' l zs"
    using i(1-6) c ow sz by (intro lru_invI[where fh = fh and ft = ft]) (simp_all add: h'_def)
  have fpl: "footprint h' l zs = footprint h l zs" by (simp add: footprint_def h'_def)
  have other: "lru_inv h' k (own k) \<and> footprint h' k (own k) = footprint h k (own k)"
    if k: "k \<in> L - {l}" for k
  proof -
    have ik: "lru_inv h k (own k)" using oth k by (simp add: lists_inv_def)
    have "fh \<notin> footprint h k (own k)" "c \<notin> footprint h k (own k)"
      using dis k cin i(10) by auto
    then have "\<forall>y\<in>footprint h k (own k). nodes h' y = nodes h y"
      by (auto simp: h'_def)
    then show ?thesis using lru_inv_frame[OF ik, of h'] by (simp add: h'_def)
  qed
  have "lists_inv h' L (own(l := zs))"
    unfolding lists_inv_def
  proof (intro conjI ballI impI)
    fix j assume "j \<in> L"
    then show "lru_inv h' j ((own(l := zs)) j)"
      using il other by (cases "j = l") simp_all
  next
    fix i j assume ij: "i \<in> L" "j \<in> L" "i \<noteq> j"
    show "footprint h' i ((own(l := zs)) i) \<inter> footprint h' j ((own(l := zs)) j) = {}"
    proof (cases "i = l")
      case True
      then show ?thesis using fpl other[of j] ij dis by auto
    next
      case False
      note il = this
      show ?thesis
      proof (cases "j = l")
        case True
        then show ?thesis using fpl other[of i] ij dis by auto
      next
        case False
        have "footprint h i (own i) \<inter> footprint h j (own j) = {}"
          using oth ij il False by (simp add: lists_inv_def)
        then show ?thesis using other[of i] other[of j] ij il False by simp
      qed
    qed
  qed
  then show ?thesis using r by (simp add: h'_def)
qed

lemma walk_inv_debug:
  assumes w: "walk_inv h L own l (Some z) (z # zs')"
  shows "walk_inv (upd_node z (\<lambda>x. x\<lparr>prev := None\<rparr>) h) L own l (Some z) (z # zs')"
proof -
  let ?h = "upd_node z (\<lambda>x. x\<lparr>prev := None\<rparr>) h"
  from w have seg: "seg_inv h l (Some z) (z # zs')" and l: "l \<in> L"
    and oth: "lists_inv h (L - {l}) own"
    and dis: "\<forall>k\<in>L - {l}. footprint h l (z # zs') \<inter> footprint h k (own k) = {}"
    by (simp_all add: walk_inv_def)
  from seg obtain fh ft where i: "fakeHead (lrus h l) = Some fh" "fakeTail (lrus h l) = Some ft"
    "fh \<noteq> ft" "fh \<notin> set (z # zs')" "ft \<notin> set (z # zs')" "distinct (z # zs')"
    "case z # zs' of [] \<Rightarrow> Some z = Some ft | y # ys \<Rightarrow> Some z = Some y \<and> chain (nodes h) y ys ft"
    "\<forall>x\<in>set (z # zs'). owner (nodes h x) = Some l"
    "size_l (lrus h l) = sum_list (map (\<lambda>x. size_n (nodes h x)) (z # zs'))"
    "footprint h l (z # zs') = {fh, ft} \<union> set (z # zs')"
    by (rule seg_invE)
  have "chain (nodes ?h) z zs' ft = chain (nodes h) z zs' ft"
    using i(5,6) by (intro chain_cong) auto
  then have c: "chain (nodes ?h) z zs' ft" using i(7) by simp
  have "sum_list (map (\<lambda>x. size_n (nodes ?h x)) (z # zs'))
          = sum_list (map (\<lambda>x. size_n (nodes h x)) (z # zs'))"
    by (intro sum_sizes_cong) simp
  then have sz: "size_l (lrus ?h l) = sum_list (map (\<lambda>x. size_n (nodes ?h x)) (z # zs'))"
    using i(9) by simp
  have ow: "\<And>x. x \<in> set (z # zs') \<Longrightarrow> owner (nodes ?h x) = Some l"
    using i(8) by auto
  have seg': "seg_inv ?h l (Some z) (z # zs')"
    using i(1-6) c sz ow by (intro seg_invI[where fh = fh and ft = ft]) simp_all
  have zfp: "z \<in> footprint h l (z # zs')" using i(10) by simp
  have "\<forall>k\<in>L - {l}. \<forall>y\<in>footprint h k (own k). nodes ?h y = nodes h y"
    using dis zfp by auto
  then have oth': "lists_inv ?h (L - {l}) own"
    using lists_inv_frame[OF oth, of ?h] by simp
  have "\<forall>k. footprint ?h k (own k) = footprint h k (own k)"
    "footprint ?h l (z # zs') = footprint h l (z # zs')"
    by (simp_all add: footprint_def)
  then show ?thesis using seg' oth' dis l by (simp add: walk_inv_def)
qed


text \<open>The walk after a callback that took the walked node out of the list.\<close>

lemma walk_inv_removed:
  assumes w: "walk_inv h L own l (Some z) (z # zs')"
    and lr: "lrus h' l = (lrus h l)\<lparr>size_l := size_l (lrus h l) - size_n (nodes h z)\<rparr>"
    and fr: "\<forall>y\<in>footprint h l (z # zs') - {z}. nodes h' y = nodes h y"
    and oth': "lists_inv h' (L - {l}) own'"
    and fps: "\<forall>k\<in>L - {l}. footprint h' k (own' k) \<subseteq> insert z (footprint h k (own k))"
  shows "walk_inv h' L own' l (next (nodes h z)) zs'"
proof -
  from w have seg: "seg_inv h l (Some z) (z # zs')" and l: "l \<in> L"
    and dis: "\<forall>k\<in>L - {l}. footprint h l (z # zs') \<inter> footprint h k (own k) = {}"
    by (simp_all add: walk_inv_def)
  from seg obtain fh ft where i: "fakeHead (lrus h l) = Some fh" "fakeTail (lrus h l) = Some ft"
    "fh \<noteq> ft" "fh \<notin> set (z # zs')" "ft \<notin> set (z # zs')" "distinct (z # zs')"
    "case z # zs' of [] \<Rightarrow> Some z = Some ft | y # ys \<Rightarrow> Some z = Some y \<and> chain (nodes h) y ys ft"
    "\<forall>x\<in>set (z # zs'). owner (nodes h x) = Some l"
    "size_l (lrus h l) = sum_list (map (\<lambda>x. size_n (nodes h x)) (z # zs'))"
    "footprint h l (z # zs') = {fh, ft} \<union> set (z # zs')"
    by (rule seg_invE)
  have ch: "chain (nodes h) z zs' ft" using i(7) by simp
  have eq: "\<forall>y\<in>{fh, ft} \<union> set zs'. nodes h' y = nodes h y"
    using fr i(3-6,10) by auto
  have nx: "next (nodes h z) = Some (hd (zs' @ [ft]))" using ch by (rule chain_next_first)
  have cs: "case zs' of [] \<Rightarrow> next (nodes h z) = Some ft
            | y # ys \<Rightarrow> next (nodes h z) = Some y \<and> chain (nodes h') y ys ft"
  proof (cases zs')
    case Nil
    then show ?thesis using nx by simp
  next
    case (Cons y ys)
    then have "chain (nodes h) y ys ft" using ch by simp
    moreover have "chain (nodes h') y ys ft = chain (nodes h) y ys ft"
      using eq Cons by (intro chain_cong) auto
    ultimately show ?thesis using Cons nx by simp
  qed
  have "sum_list (map (\<lambda>x. size_n (nodes h' x)) zs') = sum_list (map (\<lambda>x. size_n (nodes h x)) zs')"
    using eq by (intro sum_sizes_cong) simp
  then have sz: "size_l (lrus h' l) = sum_list (map (\<lambda>x. size_n (nodes h' x)) zs')"
    using i(9) lr by simp
  have ow: "\<And>x. x \<in> set zs' \<Longrightarrow> owner (nodes h' x) = Some l"
    using i(8) eq by simp
  have seg': "seg_inv h' l (next (nodes h z)) zs'"
    using i(1-6) cs sz ow lr by (intro seg_invI[where fh = fh and ft = ft]) simp_all
  have fpl: "footprint h' l zs' = {fh, ft} \<union> set zs'"
    using i(1,2) lr by (auto simp: footprint_def)
  have "\<forall>k\<in>L - {l}. footprint h' l zs' \<inter> footprint h' k (own' k) = {}"
  proof
    fix k assume k: "k \<in> L - {l}"
    have "footprint h l (z # zs') \<inter> footprint h k (own k) = {}" using dis k by simp
    moreover have "footprint h' k (own' k) \<subseteq> insert z (footprint h k (own k))" using fps k by simp
    moreover have "z \<notin> footprint h' l zs'" using fpl i(4-6) by auto
    ultimately show "footprint h' l zs' \<inter> footprint h' k (own' k) = {}"
      using fpl i(10) by auto
  qed
  then show ?thesis using seg' oth' l by (simp add: walk_inv_def)
qed

lemma walk_inv_facts:
  assumes w: "walk_inv h L own l (Some z) (z # zs')"
  shows "owner (nodes h z) = Some l"
    and "\<forall>k\<in>L - {l}. z \<notin> footprint h k (own k)"
    and "Some z \<noteq> fakeTail (lrus h l)"
    and "next (nodes h z) = (case zs' of [] \<Rightarrow> fakeTail (lrus h l) | y # ys \<Rightarrow> Some y)"
    and "next (nodes h z) \<noteq> None"
    and "size_l (lrus h l) = sum_list (map (\<lambda>x. size_n (nodes h x)) (z # zs'))"
proof -
  from w have seg: "seg_inv h l (Some z) (z # zs')"
    and dis: "\<forall>k\<in>L - {l}. footprint h l (z # zs') \<inter> footprint h k (own k) = {}"
    by (simp_all add: walk_inv_def)
  from seg obtain fh ft where i: "fakeHead (lrus h l) = Some fh" "fakeTail (lrus h l) = Some ft"
    "fh \<noteq> ft" "fh \<notin> set (z # zs')" "ft \<notin> set (z # zs')" "distinct (z # zs')"
    "case z # zs' of [] \<Rightarrow> Some z = Some ft | y # ys \<Rightarrow> Some z = Some y \<and> chain (nodes h) y ys ft"
    "\<forall>x\<in>set (z # zs'). owner (nodes h x) = Some l"
    "size_l (lrus h l) = sum_list (map (\<lambda>x. size_n (nodes h x)) (z # zs'))"
    "footprint h l (z # zs') = {fh, ft} \<union> set (z # zs')"
    by (rule seg_invE)
  show "owner (nodes h z) = Some l" using i(8) by simp
  show "\<forall>k\<in>L - {l}. z \<notin> footprint h k (own k)" using dis i(10) by auto
  show "Some z \<noteq> fakeTail (lrus h l)" using i(2,5) by auto
  have "chain (nodes h) z zs' ft" using i(7) by simp
  then have "next (nodes h z) = Some (hd (zs' @ [ft]))" by (rule chain_next_first)
  then show "next (nodes h z) = (case zs' of [] \<Rightarrow> fakeTail (lrus h l) | y # ys \<Rightarrow> Some y)"
    "next (nodes h z) \<noteq> None"
    using i(2) by (cases zs'; simp)+
  show "size_l (lrus h l) = sum_list (map (\<lambda>x. size_n (nodes h x)) (z # zs'))" by (rule i(9))
qed

lemma step_disown:
  assumes w: "walk_inv h L own l (Some z) (z # zs')"
  shows "\<exists>h'. disown dbg z h = Inr h' \<and> walk_inv h' L own l (next (nodes h z)) zs'
           \<and> (\<forall>y. Item (nodes h' y) = Item (nodes h y))
           \<and> (\<forall>y. active (nodes h' y) = active (nodes h y))"
proof -
  note f = walk_inv_facts[OF w]
  define h' where "h' = h\<lparr>nodes := (if dbg then (nodes h)(z := (nodes h z)\<lparr>owner := None\<rparr>) else nodes h),
             lrus := (lrus h)
              (l := (lrus h l)\<lparr>size_l := size_l (lrus h l) - size_n (nodes h z)\<rparr>)\<rparr>"
  have r: "disown dbg z h = Inr h'" unfolding h'_def using f(1) by (rule disown_result)
  from w have oth: "lists_inv h (L - {l}) own" by (simp add: walk_inv_def)
  have "lists_inv h' (L - {l}) own"
    using f(2) by (intro lists_inv_frame[OF oth]) (auto simp: h'_def)
  moreover have "\<forall>k\<in>L - {l}. footprint h' k (own k) = footprint h k (own k)"
    by (auto simp: footprint_def h'_def)
  ultimately have "walk_inv h' L own l (next (nodes h z)) zs'"
    by (intro walk_inv_removed[OF w]) (auto simp: h'_def)
  then show ?thesis using r by (auto simp: h'_def)
qed

lemma step_moveTo_other:
  assumes w: "walk_inv h L own l (Some z) (z # zs')" and k: "k \<in> L" "k \<noteq> l"
  shows "\<exists>h'. moveTo dbg k z h = Inr h'
           \<and> walk_inv h' L (own(k := own k @ [z])) l (next (nodes h z)) zs'
           \<and> (\<forall>y. Item (nodes h' y) = Item (nodes h y))
           \<and> (\<forall>y. y \<noteq> z \<longrightarrow> active (nodes h' y) = active (nodes h y))"
proof -
  note f = walk_inv_facts[OF w]
  define hd where "hd = h\<lparr>nodes := (if dbg then (nodes h)(z := (nodes h z)\<lparr>owner := None\<rparr>) else nodes h),
             lrus := (lrus h)
              (l := (lrus h l)\<lparr>size_l := size_l (lrus h l) - size_n (nodes h z)\<rparr>)\<rparr>"
  have r: "disown dbg z h = Inr hd" unfolding hd_def using f(1) by (rule disown_result)
  from w have oth: "lists_inv h (L - {l}) own" by (simp add: walk_inv_def)
  have othd: "lists_inv hd (L - {l}) own"
    using f(2) by (intro lists_inv_frame[OF oth]) (auto simp: hd_def)
  have fpd: "\<forall>j. footprint hd j (own j) = footprint h j (own j)"
    by (auto simp: footprint_def hd_def)
  have kin: "k \<in> L - {l}" using k by simp
  have zn: "\<forall>j\<in>L - {l}. z \<notin> footprint hd j (own j)" using f(2) fpd by simp
  from lists_inv_pushBack[OF othd kin zn] obtain h' where
    h': "pushBack k z hd = Inr h'" "lists_inv h' (L - {l}) (own(k := own k @ [z]))"
      "footprint h' k (own k @ [z]) = insert z (footprint hd k (own k))"
      "\<forall>j\<in>L - {l}. j \<noteq> k \<longrightarrow> footprint h' j (own j) = footprint hd j (own j)"
      "\<forall>j. j \<noteq> k \<longrightarrow> lrus h' j = lrus hd j"
      "\<forall>y. y \<notin> insert z (footprint hd k (own k)) \<longrightarrow> nodes h' y = nodes hd y"
      "\<forall>y. Item (nodes h' y) = Item (nodes hd y)"
      "\<forall>y. y \<noteq> z \<longrightarrow> active (nodes h' y) = active (nodes hd y)"
    by blast
  have m: "moveTo dbg k z h = Inr h'" using r h'(1) by (simp add: moveTo_def)
  from w have dis: "\<forall>j\<in>L - {l}. footprint h l (z # zs') \<inter> footprint h j (own j) = {}"
    by (simp add: walk_inv_def)
  have lr: "lrus h' l = (lrus h l)\<lparr>size_l := size_l (lrus h l) - size_n (nodes h z)\<rparr>"
    using h'(5) k(2) by (simp add: hd_def)
  have fr: "\<forall>y\<in>footprint h l (z # zs') - {z}. nodes h' y = nodes h y"
  proof
    fix y assume y: "y \<in> footprint h l (z # zs') - {z}"
    then have "y \<notin> insert z (footprint hd k (own k))" using dis kin fpd by auto
    then have "nodes h' y = nodes hd y" using h'(6) by simp
    then show "nodes h' y = nodes h y" using y by (simp add: hd_def)
  qed
  have fps: "\<forall>j\<in>L - {l}. footprint h' j ((own(k := own k @ [z])) j) \<subseteq> insert z (footprint h j (own j))"
    using h'(3,4) fpd by auto
  have "walk_inv h' L (own(k := own k @ [z])) l (next (nodes h z)) zs'"
    using lr fr h'(2) fps by (rule walk_inv_removed[OF w])
  moreover have "\<forall>y. Item (nodes h' y) = Item (nodes h y)"
    using h'(7) by (simp add: hd_def)
  moreover have "\<forall>y. y \<noteq> z \<longrightarrow> active (nodes h' y) = active (nodes h y)"
    using h'(8) by (simp add: hd_def)
  ultimately show ?thesis using m by blast
qed


text \<open>The walk after a callback that put the walked node back at the tail of its list.\<close>

lemma walk_inv_reattached:
  assumes w: "walk_inv h L own l (Some z) (z # y # ys)"
    and ft: "fakeTail (lrus h l) = Some ft" and p: "p = last (y # ys)"
    and lr: "lrus h' = lrus h"
    and nd: "\<forall>x. x \<notin> {p, ft, z} \<longrightarrow> nodes h' x = nodes h x"
    and np: "nodes h' p = (nodes h p)\<lparr>next := Some z\<rparr>"
    and nft: "nodes h' ft = (nodes h ft)\<lparr>prev := Some z\<rparr>"
    and nz: "owner (nodes h' z) = Some l" "prev (nodes h' z) = Some p"
      "next (nodes h' z) = Some ft" "Item (nodes h' z) = Item (nodes h z)"
  shows "walk_inv h' L own l (Some y) (y # ys @ [z])"
proof -
  from w have seg: "seg_inv h l (Some z) (z # y # ys)" and l: "l \<in> L"
    and oth: "lists_inv h (L - {l}) own"
    and dis: "\<forall>k\<in>L - {l}. footprint h l (z # y # ys) \<inter> footprint h k (own k) = {}"
    by (simp_all add: walk_inv_def)
  from seg ft obtain fh where i: "fakeHead (lrus h l) = Some fh"
    "fh \<noteq> ft" "fh \<notin> set (z # y # ys)" "ft \<notin> set (z # y # ys)" "distinct (z # y # ys)"
    "chain (nodes h) z (y # ys) ft"
    "\<forall>x\<in>set (z # y # ys). owner (nodes h x) = Some l"
    "size_l (lrus h l) = sum_list (map (\<lambda>x. size_n (nodes h x)) (z # y # ys))"
    "footprint h l (z # y # ys) = {fh, ft} \<union> set (z # y # ys)"
    by (auto elim!: seg_invE)
  have pin: "p \<in> set (y # ys)" unfolding p by (rule last_in_set) simp
  have pne: "p \<noteq> z" "p \<noteq> ft" "p \<noteq> fh" "z \<noteq> ft" using pin i(3-5) by auto
  have ch: "chain (nodes h) y ys ft" using i(6) by simp
  have c: "chain (nodes h') y (ys @ [z]) ft"
  proof (rule chain_push[OF ch])
    show "distinct (y # ys)" using i(5) by simp
    show "\<forall>x\<in>set (y # ys). next (nodes h' x) = (if x = last (y # ys) then Some z else next (nodes h x))"
    proof
      fix x assume x: "x \<in> set (y # ys)"
      show "next (nodes h' x) = (if x = last (y # ys) then Some z else next (nodes h x))"
      proof (cases "x = p")
        case True
        then show ?thesis using np p by simp
      next
        case False
        then have "x \<notin> {p, ft, z}" using x i(4,5) by auto
        then show ?thesis using nd False p by simp
      qed
    qed
    show "\<forall>x\<in>set ys. prev (nodes h' x) = prev (nodes h x)"
    proof
      fix x assume x: "x \<in> set ys"
      show "prev (nodes h' x) = prev (nodes h x)"
      proof (cases "x = p")
        case True
        then show ?thesis using np by simp
      next
        case False
        then have "x \<notin> {p, ft, z}" using x i(4,5) by auto
        then show ?thesis using nd by simp
      qed
    qed
    show "next (nodes h' z) = Some ft" by (rule nz(3))
    show "prev (nodes h' z) = Some (last (y # ys))" using nz(2) p by simp
    show "prev (nodes h' ft) = Some z" using nft by simp
  qed
  have it: "\<forall>x. x \<noteq> ft \<longrightarrow> Item (nodes h' x) = Item (nodes h x)"
  proof (intro allI impI)
    fix x assume "x \<noteq> ft"
    then show "Item (nodes h' x) = Item (nodes h x)"
      using nd np nz(4) by (cases "x = p"; cases "x = z") auto
  qed
  have "sum_list (map (\<lambda>x. size_n (nodes h' x)) (y # ys @ [z]))
          = sum_list (map (\<lambda>x. size_n (nodes h x)) (y # ys @ [z]))"
    using it i(4) by (intro sum_sizes_cong) auto
  then have sz: "size_l (lrus h' l) = sum_list (map (\<lambda>x. size_n (nodes h' x)) (y # ys @ [z]))"
    using i(8) lr by (simp add: add.commute add.left_commute)
  have ow: "\<And>x. x \<in> set (y # ys @ [z]) \<Longrightarrow> owner (nodes h' x) = Some l"
  proof -
    fix x assume x: "x \<in> set (y # ys @ [z])"
    show "owner (nodes h' x) = Some l"
    proof (cases "x = z")
      case True
      then show ?thesis using nz(1) by simp
    next
      case False
      note xz = this
      show ?thesis
      proof (cases "x = p")
        case True
        then show ?thesis using np i(7) pin by auto
      next
        case False
        then have "x \<notin> {p, ft, z}" using x xz i(4) by auto
        then show ?thesis using nd i(7) x xz by auto
      qed
    qed
  qed
  have seg': "seg_inv h' l (Some y) (y # ys @ [z])"
    using i(1-5) ft c sz ow lr by (intro seg_invI[where fh = fh and ft = ft]) auto
  have fpl: "footprint h' l (y # ys @ [z]) = footprint h l (z # y # ys)"
    using lr by (auto simp: footprint_def)
  have ch3: "{p, ft, z} \<subseteq> footprint h l (z # y # ys)" using i(9) pin by auto
  have "\<forall>k\<in>L - {l}. \<forall>x\<in>footprint h k (own k). nodes h' x = nodes h x"
  proof (intro ballI)
    fix k x assume "k \<in> L - {l}" "x \<in> footprint h k (own k)"
    then have "x \<notin> {p, ft, z}" using dis ch3 by blast
    then show "nodes h' x = nodes h x" using nd by simp
  qed
  then have oth': "lists_inv h' (L - {l}) own"
    using lr by (intro lists_inv_frame[OF oth]) simp_all
  have "\<forall>k. footprint h' k (own k) = footprint h k (own k)"
    using lr by (simp add: footprint_def)
  then show ?thesis using seg' oth' dis l fpl by (simp add: walk_inv_def)
qed

lemma step_reattach:
  assumes w: "walk_inv h L own l (Some z) (z # y # ys)" and k: "k = Attach \<or> k = MoveTo l"
  shows "\<exists>h'. run_callback dbg k z h = Inr h'
           \<and> walk_inv h' L own l (Some y) (y # ys @ [z])
           \<and> (\<forall>x. Item (nodes h' x) = Item (nodes h x))
           \<and> (\<forall>x. x \<noteq> z \<longrightarrow> active (nodes h' x) = active (nodes h x))
           \<and> active (nodes h' z) = inactive_c
           \<and> lrus h' = lrus h"
proof -
  from w have seg: "seg_inv h l (Some z) (z # y # ys)" by (simp add: walk_inv_def)
  then obtain fh ft where i: "fakeHead (lrus h l) = Some fh" "fakeTail (lrus h l) = Some ft"
    "fh \<noteq> ft" "fh \<notin> set (z # y # ys)" "ft \<notin> set (z # y # ys)" "distinct (z # y # ys)"
    "chain (nodes h) z (y # ys) ft"
    "\<forall>x\<in>set (z # y # ys). owner (nodes h x) = Some l"
    by (auto elim!: seg_invE)
  define p where "p = last (y # ys)"
  have pin: "p \<in> set (y # ys)" unfolding p_def by (rule last_in_set) simp
  have pne: "z \<noteq> ft" "z \<noteq> p" "p \<noteq> ft" using pin i(5,6) by auto
  have pft: "prev (nodes h ft) = Some p" using chain_prev_last[OF i(7)] by (simp add: p_def)
  have oz: "owner (nodes h z) = Some l" using i(8) by simp
  show ?thesis
  proof (cases "k = Attach")
    case True
    define h' where "h' = h\<lparr>nodes := (nodes h)
              (p := (nodes h p)\<lparr>next := Some z\<rparr>,
               ft := (nodes h ft)\<lparr>prev := Some z\<rparr>,
               z := (nodes h z)\<lparr>active := inactive_c, prev := Some p, next := Some ft\<rparr>)\<rparr>"
    have r: "run_callback dbg k z h = Inr h'"
      unfolding h'_def True run_callback.simps using oz i(2) pft pne
      by (rule attachAsInactive_result)
    have "walk_inv h' L own l (Some y) (y # ys @ [z])"
      using pne oz by (intro walk_inv_reattached[OF w i(2), where p = p]) (auto simp: h'_def p_def)
    then show ?thesis using r pne by (auto simp: h'_def)
  next
    case False
    then have km: "k = MoveTo l" using k by simp
    define hd where "hd = h\<lparr>nodes := (if dbg then (nodes h)(z := (nodes h z)\<lparr>owner := None\<rparr>) else nodes h),
             lrus := (lrus h)
              (l := (lrus h l)\<lparr>size_l := size_l (lrus h l) - size_n (nodes h z)\<rparr>)\<rparr>"
    have d: "disown dbg z h = Inr hd" unfolding hd_def using oz by (rule disown_result)
    define h' where "h' = hd\<lparr>nodes := (nodes hd)
              (p := (nodes hd p)\<lparr>next := Some z\<rparr>,
               ft := (nodes hd ft)\<lparr>prev := Some z\<rparr>,
               z := (nodes hd z)\<lparr>owner := Some l, active := inactive_c,
                                 prev := Some p, next := Some ft\<rparr>),
             lrus := (lrus hd)
              (l := (lrus hd l)\<lparr>size_l := size_l (lrus hd l) + size_n (nodes hd z)\<rparr>)\<rparr>"
    have "pushBack l z hd = Inr h'"
      unfolding h'_def using i(2) pft pne by (intro pushBack_result) (auto simp: hd_def)
    then have r: "run_callback dbg k z h = Inr h'" using d by (simp add: km moveTo_def)
    have lr: "lrus h' = lrus h" by (auto simp: h'_def hd_def fun_eq_iff)
    have "walk_inv h' L own l (Some y) (y # ys @ [z])"
      using pne lr by (intro walk_inv_reattached[OF w i(2), where p = p]) (auto simp: h'_def hd_def p_def)
    then show ?thesis using r pne lr by (auto simp: h'_def hd_def)
  qed
qed

lemma step_reattach_last:
  assumes w: "walk_inv h L own l (Some z) [z]" and k: "k = Attach \<or> k = MoveTo l"
  shows "\<exists>h'. run_callback dbg k z h = Inr h' \<and> lrus h' = lrus h
           \<and> (\<forall>x. Item (nodes h' x) = Item (nodes h x))
           \<and> (\<forall>x. x \<noteq> z \<longrightarrow> active (nodes h' x) = active (nodes h x))
           \<and> active (nodes h' z) = inactive_c"
proof -
  from w have seg: "seg_inv h l (Some z) [z]" by (simp add: walk_inv_def)
  then obtain fh ft where i: "fakeHead (lrus h l) = Some fh" "fakeTail (lrus h l) = Some ft"
    "ft \<notin> set [z]" "chain (nodes h) z [] ft" "\<forall>x\<in>set [z]. owner (nodes h x) = Some l"
    by (auto elim!: seg_invE)
  have pft: "prev (nodes h ft) = Some z" and zft: "z \<noteq> ft" and oz: "owner (nodes h z) = Some l"
    using i by auto
  show ?thesis
  proof (cases "k = Attach")
    case True
    then show ?thesis
      using attachAsInactive_last_result[OF oz i(2) pft zft] zft by simp
  next
    case False
    then have km: "k = MoveTo l" using k by simp
    define hd where "hd = h\<lparr>nodes := (if dbg then (nodes h)(z := (nodes h z)\<lparr>owner := None\<rparr>) else nodes h),
             lrus := (lrus h)
              (l := (lrus h l)\<lparr>size_l := size_l (lrus h l) - size_n (nodes h z)\<rparr>)\<rparr>"
    have d: "disown dbg z h = Inr hd" unfolding hd_def using oz by (rule disown_result)
    define h2 where "h2 = upd_lru l (\<lambda>r. r\<lparr>size_l := size_l r + size_n (nodes hd z)\<rparr>)
               (upd_node z (\<lambda>x. x\<lparr>owner := Some l\<rparr>) hd)"
    define h' where "h' = h2\<lparr>nodes := (nodes h2)
              (ft := (nodes h2 ft)\<lparr>prev := Some z\<rparr>,
               z := (nodes h2 z)\<lparr>active := inactive_c, prev := Some z, next := Some ft\<rparr>)\<rparr>"
    have "attachAsInactive z h2 = Inr h'"
      unfolding h'_def using i(2) pft zft
      by (intro attachAsInactive_last_result[where l = l]) (auto simp: h2_def hd_def)
    then have r: "run_callback dbg k z h = Inr h'"
      using d by (simp add: km moveTo_def pushBack_def Let_def h2_def)
    have "lrus h' = lrus h" by (auto simp: h'_def h2_def hd_def fun_eq_iff)
    then show ?thesis using r zft by (auto simp: h'_def h2_def hd_def)
  qed
qed

subsection \<open>The loop of shrink\<close>

lemma choose_callbacks_of:
  "choose_callback (callbacks_of dbg ke ka ki) v now = run_callback dbg (pick ke ka ki v now)"
  by (simp add: choose_callback_def callbacks_of_def pick_def)

lemma loop_exit:
  "\<not> t <s size_l (lrus h l) \<Longrightarrow>
   shrink_loop dbg cb l t now cur nx h = Some (link (fakeHead (lrus h l)) cur h)"
  by (subst shrink_loop.simps) simp

lemma loop_tail:
  "t <s size_l (lrus h l) \<Longrightarrow> cur = fakeTail (lrus h l) \<Longrightarrow>
   shrink_loop dbg cb l t now cur nx h = Some (Inl (NodeOutOfRange, h))"
  by (subst shrink_loop.simps) (simp add: assertNotTail_def)

lemma loop_step:
  "t <s size_l (lrus h l) \<Longrightarrow> Some z \<noteq> fakeTail (lrus h l) \<Longrightarrow>
   choose_callback cb (nodes (if dbg then upd_node z (\<lambda>x. x\<lparr>prev := None\<rparr>) h else h) z) now z
      (if dbg then upd_node z (\<lambda>x. x\<lparr>prev := None\<rparr>) h else h) = Inr h2 \<Longrightarrow>
   shrink_loop dbg cb l t now (Some z) (Some n') h
     = shrink_loop dbg cb l t now (Some n') (next (nodes h2 n')) h2"
  by (subst shrink_loop.simps) (simp add: assertNotTail_def Let_def)

lemma pick_debug [simp]:
  "pick ke ka ki ((nodes h z)\<lparr>prev := pv\<rparr>) now = pick ke ka ki (nodes h z) now"
  by (simp add: pick_def expired_def isActive_def)

text \<open>One turn of the loop at a node of the walk, for each kind of callback.\<close>

lemma walk_step:
  assumes w: "walk_inv h L own l (Some z) (z # zs')"
    and k: "k = pick ke ka ki (nodes h z) now" and tk: "target_in L k"
    and t: "t <s size_l (lrus h l)"
  shows "\<exists>h2 n'. next (nodes h z) = Some n'
      \<and> choose_callback (callbacks_of dbg ke ka ki)
            (nodes (if dbg then upd_node z (\<lambda>x. x\<lparr>prev := None\<rparr>) h else h) z) now z
            (if dbg then upd_node z (\<lambda>x. x\<lparr>prev := None\<rparr>) h else h) = Inr h2
      \<and> shrink_loop dbg (callbacks_of dbg ke ka ki) l t now (Some z) (Some n') h
          = shrink_loop dbg (callbacks_of dbg ke ka ki) l t now (Some n') (next (nodes h2 n')) h2
      \<and> (\<forall>x. Item (nodes h2 x) = Item (nodes h x))
      \<and> (\<forall>x. x \<noteq> z \<longrightarrow> active (nodes h2 x) = active (nodes h x))
      \<and> (if removes l k then \<exists>own'. walk_inv h2 L own' l (Some n') zs'
          else active (nodes h2 z) = inactive_c \<and> lrus h2 = lrus h
            \<and> (case zs' of [] \<Rightarrow> Some n' = fakeTail (lrus h l)
                | y # ys \<Rightarrow> n' = y \<and> walk_inv h2 L own l (Some y) (y # ys @ [z])))"
proof -
  let ?h1 = "if dbg then upd_node z (\<lambda>x. x\<lparr>prev := None\<rparr>) h else h"
  have w1: "walk_inv ?h1 L own l (Some z) (z # zs')"
    using w walk_inv_debug[OF w] by simp
  have same: "lrus ?h1 = lrus h" "next (nodes ?h1 z) = next (nodes h z)"
    "\<forall>x. Item (nodes ?h1 x) = Item (nodes h x)" "\<forall>x. active (nodes ?h1 x) = active (nodes h x)"
    by simp_all
  have k1: "pick ke ka ki (nodes ?h1 z) now = k" using k by simp
  note f = walk_inv_facts[OF w]
  from f(5) obtain n' where n': "next (nodes h z) = Some n'" by auto
  have cb: "choose_callback (callbacks_of dbg ke ka ki) (nodes ?h1 z) now z ?h1 = run_callback dbg k z ?h1"
    using k1 by (simp only: choose_callbacks_of)
  have step: "run_callback dbg k z ?h1 = Inr h2 \<Longrightarrow>
     choose_callback (callbacks_of dbg ke ka ki) (nodes ?h1 z) now z ?h1 = Inr h2
     \<and> shrink_loop dbg (callbacks_of dbg ke ka ki) l t now (Some z) (Some n') h
          = shrink_loop dbg (callbacks_of dbg ke ka ki) l t now (Some n') (next (nodes h2 n')) h2" for h2
    using cb loop_step[OF t f(3), of "callbacks_of dbg ke ka ki" dbg now h2 n'] by simp
  consider (dis) "k = Disown" | (mv) j where "k = MoveTo j" "j \<noteq> l" "j \<in> L"
    | (re) "k = Attach \<or> k = MoveTo l"
    using tk by (cases k) auto
  then show ?thesis
  proof cases
    case dis
    from step_disown[OF w1, of dbg] obtain h2 where
      h2: "disown dbg z ?h1 = Inr h2" "walk_inv h2 L own l (next (nodes ?h1 z)) zs'"
        "\<forall>y. Item (nodes h2 y) = Item (nodes ?h1 y)" "\<forall>y. active (nodes h2 y) = active (nodes ?h1 y)"
      by blast
    have "run_callback dbg k z ?h1 = Inr h2" using h2(1) dis by simp
    from step[OF this] h2 n' same dis show ?thesis by auto
  next
    case mv
    from step_moveTo_other[OF w1 mv(3,2), of dbg] obtain h2 where
      h2: "moveTo dbg j z ?h1 = Inr h2"
        "walk_inv h2 L (own(j := own j @ [z])) l (next (nodes ?h1 z)) zs'"
        "\<forall>y. Item (nodes h2 y) = Item (nodes ?h1 y)"
        "\<forall>y. y \<noteq> z \<longrightarrow> active (nodes h2 y) = active (nodes ?h1 y)"
      by blast
    have "run_callback dbg k z ?h1 = Inr h2" using h2(1) mv by simp
    from step[OF this] h2 n' same mv show ?thesis by auto
  next
    case re
    then have nr: "\<not> removes l k" by auto
    show ?thesis
    proof (cases zs')
      case Nil
      from step_reattach_last[OF w1[unfolded Nil] re, of dbg] obtain h2 where
        h2: "run_callback dbg k z ?h1 = Inr h2" "lrus h2 = lrus ?h1"
          "\<forall>x. Item (nodes h2 x) = Item (nodes ?h1 x)"
          "\<forall>x. x \<noteq> z \<longrightarrow> active (nodes h2 x) = active (nodes ?h1 x)"
          "active (nodes h2 z) = inactive_c"
        by blast
      have nt: "Some n' = fakeTail (lrus h l)" using f(4) n' Nil by simp
      have i2: "\<forall>x. Item (nodes h2 x) = Item (nodes h x)" using h2(3) by simp
      have a2: "\<forall>x. x \<noteq> z \<longrightarrow> active (nodes h2 x) = active (nodes h x)" using h2(4) by simp
      have l2: "lrus h2 = lrus h" using h2(2) by simp
      show ?thesis
        apply (rule exI[of _ h2])
        apply (rule exI[of _ n'])
        using step[OF h2(1)] n' nr i2 a2 l2 h2(5) nt Nil
        apply simp
        done
    next
      case (Cons y ys)
      from step_reattach[OF w1[unfolded Cons] re, of dbg] obtain h2 where
        h2: "run_callback dbg k z ?h1 = Inr h2"
          "walk_inv h2 L own l (Some y) (y # ys @ [z])"
          "\<forall>x. Item (nodes h2 x) = Item (nodes ?h1 x)"
          "\<forall>x. x \<noteq> z \<longrightarrow> active (nodes h2 x) = active (nodes ?h1 x)"
          "active (nodes h2 z) = inactive_c" "lrus h2 = lrus ?h1"
        by blast
      have ny: "n' = y" using f(4) n' Cons by simp
      from step[OF h2(1)] h2 n' same nr ny Cons show ?thesis by auto
    qed
  qed
qed


lemma walk_weight_Cons:
  "walk_weight ns now (z # zs)
     = (if \<not> expired (ns z) now \<and> isActive (ns z) then 2 else 1) + walk_weight ns now zs"
  by (simp add: walk_weight_def)

lemma walk_weight_snoc:
  "walk_weight ns now (zs @ [z])
     = walk_weight ns now zs + (if \<not> expired (ns z) now \<and> isActive (ns z) then 2 else 1)"
  by (simp add: walk_weight_def)

lemma walk_weight_cong:
  "\<forall>x\<in>set zs. Item (ns' x) = Item (ns x) \<and> active (ns' x) = active (ns x) \<Longrightarrow>
   walk_weight ns' now zs = walk_weight ns now zs"
  unfolding walk_weight_def
  by (intro arg_cong[where f = sum_list] map_cong) (auto simp: expired_def isActive_def)

lemma walk_inv_cur:
  assumes "walk_inv h L own l cur zs"
  shows "case zs of [] \<Rightarrow> cur = fakeTail (lrus h l) \<and> size_l (lrus h l) = 0
         | z # zs' \<Rightarrow> cur = Some z \<and> z \<notin> set zs'"
  using assms by (auto simp: walk_inv_def elim!: seg_invE split: list.splits)

lemma pick_cases:
  "pick ke ka ki v now = ke \<and> expired v now
   \<or> pick ke ka ki v now = ka \<and> \<not> expired v now \<and> isActive v
   \<or> pick ke ka ki v now = ki \<and> \<not> expired v now \<and> \<not> isActive v"
  by (simp add: pick_def)

lemma inactive_not_active [simp]: "\<not> isActive (v\<lparr>active := inactive_c\<rparr>)"
  by (simp add: isActive_def inactive_c_def active_c_def)

lemma not_sless_zero_size: "0 \<le>s t \<Longrightarrow> \<not> t <s (0 :: int64)"
  by (simp add: word_sle_eq word_sless_alt)

text \<open>
  Total correctness of the loop when the callbacks for expired and for inactive nodes
  take the node out of the list.
\<close>

lemma shrink_loop_total:
  assumes "walk_inv h L own l cur zs"
    and "\<forall>z zs'. zs = z # zs' \<longrightarrow> nx = next (nodes h z)"
    and ke: "removes l ke" "target_in L ke" and ki: "removes l ki" "target_in L ki"
    and ka: "target_in L ka"
  shows "\<exists>r. shrink_loop dbg (callbacks_of dbg ke ka ki) l t now cur nx h = Some r
           \<and> (\<forall>h'. r = Inr h' \<longrightarrow> (\<exists>own'. lists_inv h' L own') \<and> \<not> t <s size_l (lrus h' l))
           \<and> (removes l ka \<and> 0 \<le>s t \<longrightarrow> (\<exists>h'. r = Inr h'))"
  using assms(1,2)
proof (induction "walk_weight (nodes h) now zs" arbitrary: h own cur nx zs rule: less_induct)
  case less
  note w = less.prems(1)
  let ?cb = "callbacks_of dbg ke ka ki"
  show ?case
  proof (cases "t <s size_l (lrus h l)")
    case False
    from walk_inv_finish[OF w] obtain h' where
      h': "link (fakeHead (lrus h l)) cur h = Inr h'" "lists_inv h' L (own(l := zs))" "lrus h' = lrus h"
      by blast
    have "shrink_loop dbg ?cb l t now cur nx h = Some (Inr h')"
      using loop_exit[OF False] h'(1) by simp
    then show ?thesis using h'(2,3) False by auto
  next
    case True
    show ?thesis
    proof (cases zs)
      case Nil
      then have c: "cur = fakeTail (lrus h l)" "size_l (lrus h l) = 0"
        using walk_inv_cur[OF w] by simp_all
      have "shrink_loop dbg ?cb l t now cur nx h = Some (Inl (NodeOutOfRange, h))"
        using True c(1) by (rule loop_tail)
      moreover have "\<not> 0 \<le>s t" using True c(2) not_sless_zero_size by auto
      ultimately show ?thesis by simp
    next
      case (Cons z zs')
      then have c: "cur = Some z" "z \<notin> set zs'" using walk_inv_cur[OF w] by simp_all
      have nx: "nx = next (nodes h z)" using less.prems(2) Cons by simp
      define k where "k = pick ke ka ki (nodes h z) now"
      have tk: "target_in L k"
        using pick_cases[of ke ka ki "nodes h z" now] ke ki ka unfolding k_def by auto
      from walk_step[OF w[unfolded Cons c(1)] k_def tk True, of dbg] obtain h2 n' where
        s: "next (nodes h z) = Some n'"
          "shrink_loop dbg ?cb l t now (Some z) (Some n') h
             = shrink_loop dbg ?cb l t now (Some n') (next (nodes h2 n')) h2"
          "\<forall>x. Item (nodes h2 x) = Item (nodes h x)"
          "\<forall>x. x \<noteq> z \<longrightarrow> active (nodes h2 x) = active (nodes h x)"
          "if removes l k then \<exists>own'. walk_inv h2 L own' l (Some n') zs'
           else active (nodes h2 z) = inactive_c \<and> lrus h2 = lrus h
             \<and> (case zs' of [] \<Rightarrow> Some n' = fakeTail (lrus h l)
                 | y # ys \<Rightarrow> n' = y \<and> walk_inv h2 L own l (Some y) (y # ys @ [z]))"
        by blast
      have eq: "shrink_loop dbg ?cb l t now cur nx h
                  = shrink_loop dbg ?cb l t now (Some n') (next (nodes h2 n')) h2"
        using s(1,2) c(1) nx by simp
      have wz: "walk_weight (nodes h2) now zs' = walk_weight (nodes h) now zs'"
        using s(3,4) c(2) by (intro walk_weight_cong) auto
      show ?thesis
      proof (cases "removes l k")
        case True
        then obtain own' where w2: "walk_inv h2 L own' l (Some n') zs'" using s(5) by auto
        have lt: "walk_weight (nodes h2) now zs' < walk_weight (nodes h) now zs"
          using wz Cons by (simp add: walk_weight_Cons)
        have n2: "\<forall>y ys. zs' = y # ys \<longrightarrow> next (nodes h2 n') = next (nodes h2 y)"
          using walk_inv_cur[OF w2] by auto
        from less.hyps[OF lt w2 n2] show ?thesis using eq by simp
      next
        case False
        then have r: "active (nodes h2 z) = inactive_c" "lrus h2 = lrus h"
          "case zs' of [] \<Rightarrow> Some n' = fakeTail (lrus h l)
           | y # ys \<Rightarrow> n' = y \<and> walk_inv h2 L own l (Some y) (y # ys @ [z])"
          using s(5) by simp_all
        have kk: "k = ka" "\<not> expired (nodes h z) now" "isActive (nodes h z)" "\<not> removes l ka"
          using pick_cases[of ke ka ki "nodes h z" now] False ke(1) ki(1) unfolding k_def by auto
        show ?thesis
        proof (cases zs')
          case Nil
          have "shrink_loop dbg ?cb l t now (Some n') (next (nodes h2 n')) h2
                  = Some (Inl (NodeOutOfRange, h2))"
            using True r Nil by (intro loop_tail) simp_all
          then show ?thesis using eq kk(4) by simp
        next
          case (Cons y ys)
          then have ny: "n' = y" and w2: "walk_inv h2 L own l (Some y) (y # ys @ [z])"
            using r(3) by simp_all
          have z1: "\<not> isActive (nodes h2 z)"
            using r(1) by (simp add: isActive_def inactive_c_def active_c_def)
          have "walk_weight (nodes h2) now (y # ys @ [z])
                  = walk_weight (nodes h2) now zs' + 1"
            using z1 Cons by (simp add: walk_weight_Cons walk_weight_snoc)
          then have lt: "walk_weight (nodes h2) now (y # ys @ [z]) < walk_weight (nodes h) now zs"
            using wz kk(2,3) \<open>zs = z # zs'\<close> by (simp add: walk_weight_Cons)
          have n2: "\<forall>a as. y # ys @ [z] = a # as \<longrightarrow> next (nodes h2 n') = next (nodes h2 a)"
            using ny by simp
          have w2': "walk_inv h2 L own l (Some n') (y # ys @ [z])" using w2 ny by simp
          from less.hyps[OF lt w2' n2] show ?thesis using eq kk(4) by simp
        qed
      qed
    qed
  qed
qed

lemma sle_sless_False: "x \<le>s t \<Longrightarrow> t <s x \<Longrightarrow> False"
  by (simp add: word_sle_eq word_sless_alt)

text \<open>
  Partial correctness of the loop for any of the callbacks of lru.go: if it returns,
  every list is at rest again. A walk whose last node was put back is at the tail with
  the size still above the target; the next turn panics. That does not happen when the
  target is not negative and no node of the list is larger than the target (\<open>B\<close>).
\<close>

lemma shrink_loop_preserves:
  assumes "shrink_loop dbg cb l t now cur nx h = Some r"
    and "cb = callbacks_of dbg ke ka ki"
    and "target_in L ke" "target_in L ka" "target_in L ki"
    and "(\<exists>own zs. walk_inv h L own l cur zs \<and> (\<forall>z zs'. zs = z # zs' \<longrightarrow> nx = next (nodes h z))
            \<and> (B \<longrightarrow> 0 \<le>s t \<and> (\<forall>x\<in>set zs. size_n (nodes h x) \<le>s t)))
         \<or> (cur = fakeTail (lrus h l) \<and> t <s size_l (lrus h l) \<and> \<not> B)"
  shows "(\<forall>h'. r = Inr h' \<longrightarrow> (\<exists>own'. lists_inv h' L own') \<and> \<not> t <s size_l (lrus h' l))
       \<and> (B \<longrightarrow> (\<exists>h'. r = Inr h'))"
  using assms
proof (induction dbg cb l t now cur nx h r rule: shrink_loop.raw_induct)
  case (1 f dbg cb l t now cur nx h r)
  note body = "1.hyps" and run = "1.prems"(1) and cb = "1.prems"(2) and J = "1.prems"(6)
  show ?case
  proof (cases "t <s size_l (lrus h l)")
    case False
    with J have "\<exists>own zs. walk_inv h L own l cur zs \<and> (\<forall>z zs'. zs = z # zs' \<longrightarrow> nx = next (nodes h z))
            \<and> (B \<longrightarrow> 0 \<le>s t \<and> (\<forall>x\<in>set zs. size_n (nodes h x) \<le>s t))"
      by (elim disjE) simp_all
    then obtain own zs where w: "walk_inv h L own l cur zs" by (elim exE conjE)
    from walk_inv_finish[OF w] obtain h' where
      h': "link (fakeHead (lrus h l)) cur h = Inr h'" "lists_inv h' L (own(l := zs))" "lrus h' = lrus h"
      by blast
    have "r = Inr h'" using body False h'(1) by simp
    then show ?thesis using h'(2,3) False by auto
  next
    case True
    show ?thesis
    proof (cases "cur = fakeTail (lrus h l)")
      case True
      then have r: "r = Inl (NodeOutOfRange, h)"
        using body \<open>t <s size_l (lrus h l)\<close> by (simp add: assertNotTail_def)
      have "\<not> B"
      proof
        assume B
        with J have "\<exists>own zs. walk_inv h L own l cur zs \<and> (\<forall>z zs'. zs = z # zs' \<longrightarrow> nx = next (nodes h z))
            \<and> (B \<longrightarrow> 0 \<le>s t \<and> (\<forall>x\<in>set zs. size_n (nodes h x) \<le>s t))"
          by (elim disjE) simp_all
        then obtain own zs where w: "walk_inv h L own l cur zs"
          and "B \<longrightarrow> 0 \<le>s t \<and> (\<forall>x\<in>set zs. size_n (nodes h x) \<le>s t)"
          by (elim exE conjE)
        then have b: "0 \<le>s t" using \<open>B\<close> by simp
        have "zs = []"
        proof (cases zs)
          case (Cons a as)
          then have "cur = Some a" using walk_inv_cur[OF w] by simp
          then have "Some a \<noteq> fakeTail (lrus h l)"
            using walk_inv_facts(3)[of h L own l a as] w Cons by simp
          then show ?thesis using True \<open>cur = Some a\<close> by simp
        qed simp
        then have "size_l (lrus h l) = 0" using walk_inv_cur[OF w] by simp
        then show False using \<open>t <s size_l (lrus h l)\<close> not_sless_zero_size[OF b] by simp
      qed
      then show ?thesis using r by simp
    next
      case False
      with J have "\<exists>own zs. walk_inv h L own l cur zs \<and> (\<forall>z zs'. zs = z # zs' \<longrightarrow> nx = next (nodes h z))
            \<and> (B \<longrightarrow> 0 \<le>s t \<and> (\<forall>x\<in>set zs. size_n (nodes h x) \<le>s t))"
        by (elim disjE) simp_all
      then obtain own zs where w: "walk_inv h L own l cur zs"
        and n: "\<forall>z zs'. zs = z # zs' \<longrightarrow> nx = next (nodes h z)"
        and bd: "B \<longrightarrow> 0 \<le>s t \<and> (\<forall>x\<in>set zs. size_n (nodes h x) \<le>s t)"
        by (elim exE conjE)
      from False walk_inv_cur[OF w] obtain z zs' where zs: "zs = z # zs'" and c: "cur = Some z"
        by (cases zs) auto
      have nx: "nx = next (nodes h z)" using n zs by simp
      define k where "k = pick ke ka ki (nodes h z) now"
      have tk: "target_in L k"
        using pick_cases[of ke ka ki "nodes h z" now] "1.prems"(3-5) unfolding k_def by auto
      from walk_step[OF w[unfolded zs c] k_def tk True, of dbg] obtain h2 n' where
        s: "next (nodes h z) = Some n'"
          "choose_callback (callbacks_of dbg ke ka ki)
            (nodes (if dbg then upd_node z (\<lambda>x. x\<lparr>prev := None\<rparr>) h else h) z) now z
            (if dbg then upd_node z (\<lambda>x. x\<lparr>prev := None\<rparr>) h else h) = Inr h2"
          "shrink_loop dbg (callbacks_of dbg ke ka ki) l t now (Some z) (Some n') h
             = shrink_loop dbg (callbacks_of dbg ke ka ki) l t now (Some n') (next (nodes h2 n')) h2"
          "\<forall>x. Item (nodes h2 x) = Item (nodes h x)"
          "\<forall>x. x \<noteq> z \<longrightarrow> active (nodes h2 x) = active (nodes h x)"
          "if removes l k then \<exists>own'. walk_inv h2 L own' l (Some n') zs'
           else active (nodes h2 z) = inactive_c \<and> lrus h2 = lrus h
             \<and> (case zs' of [] \<Rightarrow> Some n' = fakeTail (lrus h l)
                 | y # ys \<Rightarrow> n' = y \<and> walk_inv h2 L own l (Some y) (y # ys @ [z]))"
        by (elim exE conjE)
      have rec: "f dbg cb l t now (Some n') (next (nodes h2 n')) h2 = Some r"
        using body True False c nx s(1,2) cb by (simp add: assertNotTail_def Let_def)
      have run2: "shrink_loop dbg cb l t now (Some n') (next (nodes h2 n')) h2 = Some r"
        using run s(1,3) c nx cb by simp
      have sz: "\<forall>x. size_n (nodes h2 x) = size_n (nodes h x)"
        using s(4) by (simp add: size_n_def)
      have bd2: "B \<longrightarrow> 0 \<le>s t \<and> (\<forall>x\<in>set (z # zs'). size_n (nodes h2 x) \<le>s t)"
        using bd zs sz by simp
      have J2: "(\<exists>own zs. walk_inv h2 L own l (Some n') zs
                   \<and> (\<forall>z zs'. zs = z # zs' \<longrightarrow> next (nodes h2 n') = next (nodes h2 z))
                   \<and> (B \<longrightarrow> 0 \<le>s t \<and> (\<forall>x\<in>set zs. size_n (nodes h2 x) \<le>s t)))
                \<or> (Some n' = fakeTail (lrus h2 l) \<and> t <s size_l (lrus h2 l) \<and> \<not> B)"
      proof (cases "removes l k")
        case True
        then obtain own' where w2: "walk_inv h2 L own' l (Some n') zs'" using s(6) by auto
        have "\<forall>z zs''. zs' = z # zs'' \<longrightarrow> next (nodes h2 n') = next (nodes h2 z)"
          using walk_inv_cur[OF w2] by (auto split: list.splits)
        moreover have "B \<longrightarrow> 0 \<le>s t \<and> (\<forall>x\<in>set zs'. size_n (nodes h2 x) \<le>s t)"
          using bd2 by simp
        ultimately show ?thesis using w2 by blast
      next
        case False
        then have r: "lrus h2 = lrus h"
          "case zs' of [] \<Rightarrow> Some n' = fakeTail (lrus h l)
           | y # ys \<Rightarrow> n' = y \<and> walk_inv h2 L own l (Some y) (y # ys @ [z])"
          using s(6) by simp_all
        show ?thesis
        proof (cases zs')
          case Nil
          have "size_l (lrus h l) = size_n (nodes h z)"
            using walk_inv_facts(6)[OF w[unfolded zs c]] Nil by simp
          then have "\<not> size_n (nodes h z) \<le>s t"
            using \<open>t <s size_l (lrus h l)\<close> sle_sless_False[of "size_n (nodes h z)" t] by auto
          then have "\<not> B" using bd zs by simp
          then show ?thesis using Nil r \<open>t <s size_l (lrus h l)\<close> by simp
        next
          case (Cons y ys)
          then have "walk_inv h2 L own l (Some n') (y # ys @ [z])" "n' = y" using r(2) by simp_all
          moreover have "B \<longrightarrow> 0 \<le>s t \<and> (\<forall>x\<in>set (y # ys @ [z]). size_n (nodes h2 x) \<le>s t)"
            using bd2 Cons by auto
          ultimately show ?thesis by blast
        qed
      qed
      show ?thesis
        using "1.IH"[OF rec run2 cb "1.prems"(3-5) J2] .
    qed
  qed
qed (fact assms(1))

text \<open>
  The loop never returns when the callbacks for active and for inactive nodes both put
  the node back, two nodes or more are left, none of them has expired and the size is
  above the target: the walk goes round and round.
\<close>

lemma shrink_loop_runs_forever:
  assumes w: "walk_inv h L own l cur zs"
    and nx: "\<forall>z zs'. zs = z # zs' \<longrightarrow> nx = next (nodes h z)"
    and len: "2 \<le> length zs" and t: "t <s size_l (lrus h l)"
    and ne: "\<forall>x\<in>set zs. \<not> expired (nodes h x) now"
    and ka: "ka = Attach \<or> ka = MoveTo l" and ki: "ki = Attach \<or> ki = MoveTo l"
  shows "shrink_loop dbg (callbacks_of dbg ke ka ki) l t now cur nx h = None"
proof (rule ccontr)
  assume "shrink_loop dbg (callbacks_of dbg ke ka ki) l t now cur nx h \<noteq> None"
  then obtain r where run: "shrink_loop dbg (callbacks_of dbg ke ka ki) l t now cur nx h = Some r"
    by auto
  define cb :: "('a heap_scheme) callbacks" where "cb = callbacks_of dbg ke ka ki"
  have run': "shrink_loop dbg cb l t now cur nx h = Some r" using run by (simp add: cb_def)
  have J: "\<exists>zs. walk_inv h L own l cur zs \<and> (\<forall>z zs'. zs = z # zs' \<longrightarrow> nx = next (nodes h z))
             \<and> 2 \<le> length zs \<and> t <s size_l (lrus h l)
             \<and> (\<forall>x\<in>set zs. \<not> expired (nodes h x) now)"
    using w nx len t ne by blast
  from run' cb_def ka ki J show False
  proof (induction dbg cb l t now cur nx h r rule: shrink_loop.raw_induct)
    case (1 f dbg cb l t now cur nx h r)
    note body = "1.hyps" and run = "1.prems"(1) and cb = "1.prems"(2)
    from "1.prems"(5) obtain zs where w: "walk_inv h L own l cur zs"
      and n: "\<forall>z zs'. zs = z # zs' \<longrightarrow> nx = next (nodes h z)"
      and len: "2 \<le> length zs" and t: "t <s size_l (lrus h l)"
      and ne: "\<forall>x\<in>set zs. \<not> expired (nodes h x) now"
      by blast
    from len obtain z y ys where zs: "zs = z # y # ys"
      by (cases zs; cases "tl zs") auto
    have c: "cur = Some z" using walk_inv_cur[OF w] zs by simp
    have nx: "nx = next (nodes h z)" using n zs by simp
    define k where "k = pick ke ka ki (nodes h z) now"
    have kk: "k = Attach \<or> k = MoveTo l"
      using pick_cases[of ke ka ki "nodes h z" now] ne zs "1.prems"(3,4) unfolding k_def by auto
    then have tk: "target_in L k" and nr: "\<not> removes l k" using w by (auto simp: walk_inv_def)
    from walk_step[OF w[unfolded zs c] k_def tk t, of dbg] nr obtain h2 n' where
      s: "next (nodes h z) = Some n'"
        "choose_callback (callbacks_of dbg ke ka ki)
          (nodes (if dbg then upd_node z (\<lambda>x. x\<lparr>prev := None\<rparr>) h else h) z) now z
          (if dbg then upd_node z (\<lambda>x. x\<lparr>prev := None\<rparr>) h else h) = Inr h2"
        "shrink_loop dbg (callbacks_of dbg ke ka ki) l t now (Some z) (Some n') h
           = shrink_loop dbg (callbacks_of dbg ke ka ki) l t now (Some n') (next (nodes h2 n')) h2"
        "\<forall>x. Item (nodes h2 x) = Item (nodes h x)"
        "lrus h2 = lrus h" "n' = y" "walk_inv h2 L own l (Some y) (y # ys @ [z])"
      by auto
    have nt: "Some z \<noteq> fakeTail (lrus h l)" using walk_inv_facts(3)[OF w[unfolded zs c]] .
    have rec: "f dbg cb l t now (Some n') (next (nodes h2 n')) h2 = Some r"
      using body t nt c nx s(1,2) cb by (simp add: assertNotTail_def Let_def)
    have run2: "shrink_loop dbg cb l t now (Some n') (next (nodes h2 n')) h2 = Some r"
      using run s(1,3) c nx cb by simp
    have "\<forall>x\<in>set (y # ys @ [z]). \<not> expired (nodes h2 x) now"
      using ne s(4) zs by (auto simp: expired_def)
    then have J2: "\<exists>zs. walk_inv h2 L own l (Some n') zs
             \<and> (\<forall>z zs'. zs = z # zs' \<longrightarrow> next (nodes h2 n') = next (nodes h2 z))
             \<and> 2 \<le> length zs \<and> t <s size_l (lrus h2 l)
             \<and> (\<forall>x\<in>set zs. \<not> expired (nodes h2 x) now)"
      using s(5,6,7) t by (intro exI[of _ "y # ys @ [z]"]) simp
    show ?case using "1.IH"[OF rec run2 cb "1.prems"(3,4) J2] .
  qed (fact run')
qed

text \<open>The entry of shrink into its loop, for lists at rest and a target that is not negative.\<close>

lemma shrink_start:
  assumes inv: "lists_inv h L own" and l: "l \<in> L" and t: "\<not> t <s 0"
  shows "\<exists>c. shrink dbg cb l t now h = shrink_loop dbg cb l t now (Some c) (next (nodes h c)) h
           \<and> walk_inv h L own l (Some c) (own l)
           \<and> (\<forall>z zs'. own l = z # zs' \<longrightarrow> next (nodes h c) = next (nodes h z))"
proof -
  from walk_inv_start[OF inv l] obtain c where
    c: "head h l = Inr (Some c)" "walk_inv h L own l (Some c) (own l)"
    by blast
  have "shrink dbg cb l t now h = shrink_loop dbg cb l t now (Some c) (next (nodes h c)) h"
    using t c(1) by (simp add: shrink_def)
  moreover have "\<forall>z zs'. own l = z # zs' \<longrightarrow> next (nodes h c) = next (nodes h z)"
    using walk_inv_cur[OF c(2)] by auto
  ultimately show ?thesis using c(2) by blast
qed

lemma shrink_total:
  assumes "lists_inv h L own" "l \<in> L"
    and "removes l ke" "target_in L ke" and "removes l ki" "target_in L ki"
    and "target_in L ka"
  shows "\<exists>r. shrink dbg (callbacks_of dbg ke ka ki) l t now h = Some r
           \<and> (removes l ka \<and> 0 \<le>s t \<longrightarrow> (\<exists>h'. r = Inr h'))"
proof (cases "t <s 0")
  case True
  then show ?thesis by (simp add: shrink_def word_sle_eq word_sless_alt)
next
  case False
  from shrink_start[OF assms(1,2) False, of dbg "callbacks_of dbg ke ka ki" now] obtain c where
    c: "shrink dbg (callbacks_of dbg ke ka ki) l t now h
          = shrink_loop dbg (callbacks_of dbg ke ka ki) l t now (Some c) (next (nodes h c)) h"
      "walk_inv h L own l (Some c) (own l)"
      "\<forall>z zs'. own l = z # zs' \<longrightarrow> next (nodes h c) = next (nodes h z)"
    by auto
  from shrink_loop_total[OF c(2,3) assms(3-7), of dbg t now] show ?thesis
    using c(1) by auto
qed

subsection \<open>The calls of shrink\<close>

lemma calls_upd_node [simp]: "calls (upd_node p f s) = calls s"
  by (simp add: upd_node_def)


lemma final_simps [simp]: "final (Inl (p, s)) = s" "final (Inr s) = s"
  by (simp_all add: final_def)





lemma stands_at_Nil [simp]: "stands_at p [] = p"
  by (simp add: stands_at_def)

lemma stands_at_Cons [simp]: "stands_at p (c # cs) = stands_at (next (c_value c)) cs"
  by (simp add: stands_at_def)



lemma walk_inv_calls [simp]:
  "walk_inv (s\<lparr>calls := cs\<rparr>) L own l cur zs = walk_inv s L own l cur zs"
  by (simp add: walk_inv_def seg_inv_def lists_inv_def lru_inv_def footprint_def
        cong: option.case_cong list.case_cong)





subsection \<open>The concrete store\<close>

lemmas ex_defs = ex_heap_def ex_nodes_def ex_lrus_def ex_own_def mk_node_def ex_traced_def
       ex_traced_own_def with_expiry_def

lemmas eval_defs = shrink_def head_def shrink_loop.simps assertNotTail_def
       choose_callback_def callbacks_of_def expired_def isActive_def active_c_def inactive_c_def
       moveTo_def pushBack_def disown_def size_n_def extraSizePerNode_def
       attachAsInactive_def tail_def link_def Let_def upd_node_def upd_lru_def word_sless_alt
       word_sle_eq

lemma ex_lists_inv: "lists_inv ex_heap {0, 1} ex_own"
  by (simp add: lists_inv_def lru_inv_def footprint_def ex_defs size_n_def extraSizePerNode_def)

lemma pushBack_links:
  assumes "fakeTail (lrus h l) = Some ft" "prev (nodes h ft) = Some p"
    "n \<noteq> ft" "n \<noteq> p" "p \<noteq> ft"
  shows "\<exists>h'. pushBack l n h = Inr h'
           \<and> owner (nodes h' n) = Some l
           \<and> next (nodes h' p) = Some n \<and> prev (nodes h' n) = Some p
           \<and> next (nodes h' n) = Some ft \<and> prev (nodes h' ft) = Some n
           \<and> tail h' l = Inr (Some n)"
  using assms by (simp add: pushBack_result tail_def)

subsection \<open>The claims about the list\<close>



text \<open>
  C2: with every list of the store at rest, \<open>pushBack\<close> of a node that is in no list
  leaves every list at rest, the node now the last of its list; and when \<open>shrink\<close>, with
  callbacks that disown the walked node, attach it again to its owner or move it to a
  list, returns, every list is at rest again.
\<close>

theorem pushBack_shrink_preserve_invariants:
  assumes "lists_inv h L own" and "l \<in> L"
  shows "((\<forall>k\<in>L. n \<notin> footprint h k (own k)) \<longrightarrow>
            (\<exists>h'. pushBack l n h = Inr h' \<and> lists_inv h' L (own(l := own l @ [n]))))
       \<and> (target_in L ke \<and> target_in L ka \<and> target_in L ki
            \<and> shrink dbg (callbacks_of dbg ke ka ki) l t now h = Some (Inr h2) \<longrightarrow>
            (\<exists>own'. lists_inv h2 L own'))"
proof (intro conjI impI)
  assume "\<forall>k\<in>L. n \<notin> footprint h k (own k)"
  from lists_inv_pushBack[OF assms this]
  show "\<exists>h'. pushBack l n h = Inr h' \<and> lists_inv h' L (own(l := own l @ [n]))"
    by blast
next
  assume a: "target_in L ke \<and> target_in L ka \<and> target_in L ki
            \<and> shrink dbg (callbacks_of dbg ke ka ki) l t now h = Some (Inr h2)"
  then have t: "\<not> t <s 0" by (auto simp: shrink_def)
  from shrink_start[OF assms t, of dbg "callbacks_of dbg ke ka ki" now] a obtain c where
    c: "shrink_loop dbg (callbacks_of dbg ke ka ki) l t now (Some c) (next (nodes h c)) h = Some (Inr h2)"
      "walk_inv h L own l (Some c) (own l)"
      "\<forall>z zs'. own l = z # zs' \<longrightarrow> next (nodes h c) = next (nodes h z)"
    by auto
  have J: "(\<exists>own zs. walk_inv h L own l (Some c) zs
           \<and> (\<forall>z zs'. zs = z # zs' \<longrightarrow> next (nodes h c) = next (nodes h z))
           \<and> (False \<longrightarrow> 0 \<le>s t \<and> (\<forall>x\<in>set zs. size_n (nodes h x) \<le>s t)))
        \<or> (Some c = fakeTail (lrus h l) \<and> t <s size_l (lrus h l) \<and> \<not> False)"
    using c(2,3) by blast
  have tg: "target_in L ke" "target_in L ka" "target_in L ki" using a by simp_all
  from shrink_loop_preserves[OF c(1) refl tg J]
  show "\<exists>own'. lists_inv h2 L own'" by simp
qed

theorem pushBack_shrink_preserve_invariants_witness:
  "lists_inv ex_heap {0, 1} ex_own \<and> (0 :: nat) \<in> {0, 1}
   \<and> 4 \<notin> footprint ex_heap 0 (ex_own 0) \<and> 4 \<notin> footprint ex_heap 1 (ex_own 1)
   \<and> (\<exists>h'. pushBack 0 4 ex_heap = Inr h' \<and> lists_inv h' {0, 1} (ex_own(0 := ex_own 0 @ [4])))
   \<and> target_in {0, 1} Disown \<and> target_in {0, 1} (MoveTo 0) \<and> target_in {0, 1} (MoveTo 1)
   \<and> (\<exists>h2. shrink True (callbacks_of True Disown (MoveTo 0) (MoveTo 1)) 0 400 0 ex_heap = Some (Inr h2)
         \<and> (\<exists>own'. lists_inv h2 {0, 1} own'))"
proof -
  have 1: "lists_inv ex_heap {0, 1} ex_own" by (rule ex_lists_inv)
  have 2: "(0 :: nat) \<in> {0, 1}" by simp
  have 3: "4 \<notin> footprint ex_heap 0 (ex_own 0)" "4 \<notin> footprint ex_heap 1 (ex_own 1)"
    by (simp_all add: footprint_def ex_defs)
  then have 4: "\<forall>k\<in>{0, 1}. 4 \<notin> footprint ex_heap k (ex_own k)" by simp
  have "\<exists>h2. shrink True (callbacks_of True Disown (MoveTo 0) (MoveTo 1)) 0 400 0 ex_heap = Some (Inr h2)"
    by (simp add: shrink_def head_def ex_defs shrink_loop.simps assertNotTail_def
       choose_callback_def callbacks_of_def expired_def isActive_def active_c_def inactive_c_def
       moveTo_def pushBack_def disown_def size_n_def extraSizePerNode_def
       attachAsInactive_def tail_def link_def Let_def upd_node_def upd_lru_def word_sless_alt)
  then obtain h2 where
    5: "shrink True (callbacks_of True Disown (MoveTo 0) (MoveTo 1)) 0 400 0 ex_heap = Some (Inr h2)"
    by blast
  show ?thesis
    using pushBack_shrink_preserve_invariants[OF 1 2, of 4 Disown "MoveTo 0" "MoveTo 1" True 400 0 h2]
      1 3 4 5
    by simp
qed

text \<open>
  C3 (amended): \<open>shrink\<close> terminates, by returning or by a panic, when the callbacks for
  expired and for inactive nodes take the walked node out of the list (they disown it or
  move it to another list); the callback for active nodes may also put the node back in
  the same list, which clears its active bit. Hot compaction and cold eviction are of
  this form.
\<close>

theorem shrink_terminates:
  assumes "lists_inv h L own" and "l \<in> L"
    and "removes l ke" and "removes l ki"
    and "target_in L ke" and "target_in L ka" and "target_in L ki"
  shows "\<exists>r. shrink dbg (callbacks_of dbg ke ka ki) l t now h = Some r"
  using shrink_total[OF assms(1,2,3,5,4,7,6), of dbg t now] by blast

theorem shrink_terminates_witness:
  "lists_inv ex_heap {0, 1} ex_own \<and> (0 :: nat) \<in> {0, 1}
   \<and> removes 0 Disown \<and> removes 0 (MoveTo 1)
   \<and> target_in {0, 1} Disown \<and> target_in {0, 1} (MoveTo 0) \<and> target_in {0, 1} (MoveTo 1)
   \<and> (\<exists>r. shrink True (callbacks_of True Disown (MoveTo 0) (MoveTo 1)) 0 400 0 ex_heap = Some r)"
proof -
  have 1: "lists_inv ex_heap {0, 1} ex_own" by (rule ex_lists_inv)
  have 2: "(0 :: nat) \<in> {0, 1}" by simp
  have 3: "removes 0 Disown" "removes 0 (MoveTo 1)" by simp_all
  have 4: "target_in {0, 1} Disown" "target_in {0, 1} (MoveTo 0)" "target_in {0, 1} (MoveTo 1)"
    by simp_all
  show ?thesis
    using shrink_terminates[OF 1 2 3 4, of True 400 0] 1 2 3 4 by simp
qed

text \<open>
  C3 fails as stated: with lists at rest, a callback for expired nodes that disowns, and
  callbacks for active and for inactive nodes that both re-insert the node in the same
  list with its active bit cleared (\<open>moveTo\<close> of the list itself), \<open>shrink\<close> to the target
  0 of a list of two nodes never returns.
\<close>

theorem shrink_reattach_runs_forever_counterexample:
  "lists_inv ex_heap {0, 1} ex_own
   \<and> shrink False (callbacks_of False Disown (MoveTo 0) (MoveTo 0)) 0 0 0 ex_heap = None"
proof -
  have 1: "lists_inv ex_heap {0, 1} ex_own" by (rule ex_lists_inv)
  have 2: "(0 :: nat) \<in> {0, 1}" by simp
  have 3: "\<not> (0 :: int64) <s 0" by (simp add: word_sless_alt)
  from shrink_start[OF 1 2 3, of False "callbacks_of False Disown (MoveTo 0) (MoveTo 0)" 0]
  obtain c where
    c: "shrink False (callbacks_of False Disown (MoveTo 0) (MoveTo 0)) 0 0 0 ex_heap
          = shrink_loop False (callbacks_of False Disown (MoveTo 0) (MoveTo 0)) 0 0 0 (Some c)
              (next (nodes ex_heap c)) ex_heap"
      "walk_inv ex_heap {0, 1} ex_own 0 (Some c) (ex_own 0)"
      "\<forall>z zs'. ex_own 0 = z # zs' \<longrightarrow> next (nodes ex_heap c) = next (nodes ex_heap z)"
    by blast
  have 4: "2 \<le> length (ex_own 0)" "(0 :: int64) <s size_l (lrus ex_heap 0)"
    "\<forall>x\<in>set (ex_own 0). \<not> expired (nodes ex_heap x) 0"
    by (simp_all add: ex_defs expired_def word_sless_alt)
  have "shrink_loop False (callbacks_of False Disown (MoveTo 0) (MoveTo 0)) 0 0 0 (Some c)
              (next (nodes ex_heap c)) ex_heap = None"
    using c(2,3) 4 by (rule shrink_loop_runs_forever) simp_all
  then show ?thesis using c(1) 1 by simp
qed

text \<open>
  C4: for every list state and every time \<open>now\<close>, \<open>shrink\<close> with a negative target
  panics, whatever the callbacks are, and the panic carries the store it was called
  with: no node has been walked and nothing has been modified.
\<close>

theorem shrink_negative_panics:
  "toSize <s 0 \<Longrightarrow> shrink dbg cb l toSize now h = Some (Inl (ShrinkNegative toSize, h))"
  by (simp add: shrink_def)

theorem shrink_negative_panics_witness:
  "(- 1 :: int64) <s 0
   \<and> shrink True (callbacks_of True Disown Attach (MoveTo 1)) 0 (- 1) 5 ex_heap
       = Some (Inl (ShrinkNegative (- 1), ex_heap))"
proof -
  have 1: "(- 1 :: int64) <s 0" by (simp add: word_sless_alt)
  show ?thesis
    using shrink_negative_panics[OF 1, of True "callbacks_of True Disown Attach (MoveTo 1)" 0 5 ex_heap] 1
    by simp
qed

text \<open>
  C5 (amended): when the loop stands on the tail sentinel with the size above the target,
  it panics with "node pointer out of range", the store unchanged. With lists at rest and
  a target that is not negative, \<open>shrink\<close> does not panic, so that branch is not reached,
  when every callback takes the walked node out of the list, or when no node of the list
  is larger than the target.
\<close>

theorem tail_panic_unreachable:
  "(t <s size_l (lrus h l) \<and> cur = fakeTail (lrus h l) \<longrightarrow>
      shrink_loop dbg cb l t now cur nx h = Some (Inl (NodeOutOfRange, h)))
   \<and> (lists_inv h L own \<and> l \<in> L \<and> 0 \<le>s t
        \<and> target_in L ke \<and> target_in L ka \<and> target_in L ki
        \<and> (removes l ke \<and> removes l ka \<and> removes l ki
             \<or> (\<forall>x\<in>set (own l). size_n (nodes h x) \<le>s t)) \<longrightarrow>
      (\<forall>r. shrink dbg (callbacks_of dbg ke ka ki) l t now h = Some r \<longrightarrow> (\<exists>h'. r = Inr h'))
      \<and> (\<forall>s. shrink dbg (callbacks_of dbg ke ka ki) l t now h \<noteq> Some (Inl (NodeOutOfRange, s))))"
proof (intro conjI impI)
  assume "t <s size_l (lrus h l) \<and> cur = fakeTail (lrus h l)"
  then show "shrink_loop dbg cb l t now cur nx h = Some (Inl (NodeOutOfRange, h))"
    using loop_tail by blast
next
  assume a: "lists_inv h L own \<and> l \<in> L \<and> 0 \<le>s t
        \<and> target_in L ke \<and> target_in L ka \<and> target_in L ki
        \<and> (removes l ke \<and> removes l ka \<and> removes l ki
             \<or> (\<forall>x\<in>set (own l). size_n (nodes h x) \<le>s t))"
  then have inv: "lists_inv h L own" and l: "l \<in> L" and t: "0 \<le>s t"
    and tg: "target_in L ke" "target_in L ka" "target_in L ki"
    by simp_all
  have nt: "\<not> t <s 0" using t by (rule not_sless_zero_size)
  have ret: "\<exists>h'. r = Inr h'" if run: "shrink dbg (callbacks_of dbg ke ka ki) l t now h = Some r" for r
  proof (cases "removes l ke \<and> removes l ka \<and> removes l ki")
    case True
    then have "\<exists>r. shrink dbg (callbacks_of dbg ke ka ki) l t now h = Some r
           \<and> (removes l ka \<and> 0 \<le>s t \<longrightarrow> (\<exists>h'. r = Inr h'))"
      using shrink_total[of h L own l ke ki ka dbg t now] inv l tg by simp
    then show ?thesis using run True t by auto
  next
    case False
    then have bd: "\<forall>x\<in>set (own l). size_n (nodes h x) \<le>s t" using a by blast
    from shrink_start[OF inv l nt, of dbg "callbacks_of dbg ke ka ki" now] obtain c where
      c: "shrink dbg (callbacks_of dbg ke ka ki) l t now h
            = shrink_loop dbg (callbacks_of dbg ke ka ki) l t now (Some c) (next (nodes h c)) h"
        "walk_inv h L own l (Some c) (own l)"
        "\<forall>z zs'. own l = z # zs' \<longrightarrow> next (nodes h c) = next (nodes h z)"
      by blast
    have J: "(\<exists>own zs. walk_inv h L own l (Some c) zs
             \<and> (\<forall>z zs'. zs = z # zs' \<longrightarrow> next (nodes h c) = next (nodes h z))
             \<and> (True \<longrightarrow> 0 \<le>s t \<and> (\<forall>x\<in>set zs. size_n (nodes h x) \<le>s t)))
          \<or> (Some c = fakeTail (lrus h l) \<and> t <s size_l (lrus h l) \<and> \<not> True)"
      using c(2,3) t bd by blast
    have "shrink_loop dbg (callbacks_of dbg ke ka ki) l t now (Some c) (next (nodes h c)) h = Some r"
      using run c(1) by simp
    from shrink_loop_preserves[OF this refl tg J] show ?thesis by simp
  qed
  show "\<forall>r. shrink dbg (callbacks_of dbg ke ka ki) l t now h = Some r \<longrightarrow> (\<exists>h'. r = Inr h')"
    using ret by blast
  show "\<forall>s. shrink dbg (callbacks_of dbg ke ka ki) l t now h \<noteq> Some (Inl (NodeOutOfRange, s))"
    using ret by fastforce
qed

theorem tail_panic_unreachable_witness:
  "(0 :: int64) <s size_l (lrus ex_heap 0) \<and> Some 1 = fakeTail (lrus ex_heap 0)
   \<and> shrink_loop False (callbacks_of False Disown Disown Disown) 0 0 0 (Some 1) None ex_heap
       = Some (Inl (NodeOutOfRange, ex_heap))
   \<and> lists_inv ex_heap {0, 1} ex_own \<and> (0 :: nat) \<in> {0, 1} \<and> (0 :: int64) \<le>s 400
   \<and> target_in {0, 1} Disown \<and> target_in {0, 1} (MoveTo 0) \<and> target_in {0, 1} (MoveTo 1)
   \<and> list_all (\<lambda>x. size_n (nodes ex_heap x) \<le>s 400) (ex_own 0)
   \<and> (\<forall>s. shrink False (callbacks_of False Disown (MoveTo 0) (MoveTo 1)) 0 400 0 ex_heap
           \<noteq> Some (Inl (NodeOutOfRange, s)))"
proof -
  have 1: "(0 :: int64) <s size_l (lrus ex_heap 0) \<and> Some 1 = fakeTail (lrus ex_heap 0)"
    by (simp add: ex_defs word_sless_alt)
  have 2: "lists_inv ex_heap {0, 1} ex_own \<and> (0 :: nat) \<in> {0, 1} \<and> (0 :: int64) \<le>s 400
        \<and> target_in {0, 1} Disown \<and> target_in {0, 1} (MoveTo 0) \<and> target_in {0, 1} (MoveTo 1)
        \<and> (removes 0 Disown \<and> removes 0 (MoveTo 0) \<and> removes 0 (MoveTo 1)
             \<or> (\<forall>x\<in>set (ex_own 0). size_n (nodes ex_heap x) \<le>s 400))"
    using ex_lists_inv by (simp add: word_sle_eq ex_defs size_n_def extraSizePerNode_def)
  have 3: "list_all (\<lambda>x. size_n (nodes ex_heap x) \<le>s 400) (ex_own 0)"
    by (simp add: word_sle_eq ex_defs size_n_def extraSizePerNode_def)
  have a: "shrink_loop False (callbacks_of False Disown Disown Disown) 0 0 0 (Some 1) None ex_heap
       = Some (Inl (NodeOutOfRange, ex_heap))"
    using tail_panic_unreachable[of 0 ex_heap 0 "Some 1" False
        "callbacks_of False Disown Disown Disown" 0 None "{0, 1}" ex_own Disown "MoveTo 0" "MoveTo 1"] 1
    by blast
  have b: "\<forall>s. shrink False (callbacks_of False Disown (MoveTo 0) (MoveTo 1)) 0 400 0 ex_heap
           \<noteq> Some (Inl (NodeOutOfRange, s))"
    using tail_panic_unreachable[of 400 ex_heap 0 "Some 1" False
        "callbacks_of False Disown Disown Disown" 0 None "{0, 1}" ex_own Disown "MoveTo 0" "MoveTo 1"] 2
    by blast
  show ?thesis using 1 2 3 a b by simp
qed

text \<open>
  C5 fails as stated: list 1 is at rest, its size the size of its one node, which is
  active; with \<open>attachAsInactive\<close> as the callback for active nodes (it attaches the node
  to the same owner) \<open>shrink\<close> to the target 0 panics with "node pointer out of range".
\<close>

theorem tail_panic_reached_counterexample:
  "lists_inv ex_heap {0, 1} ex_own \<and> (0 :: int64) \<le>s 0
   \<and> (\<exists>s. shrink False (callbacks_of False Disown Attach Disown) 1 0 0 ex_heap
          = Some (Inl (NodeOutOfRange, s)))"
proof -
  have "\<exists>s. shrink False (callbacks_of False Disown Attach Disown) 1 0 0 ex_heap
          = Some (Inl (NodeOutOfRange, s))"
    by (simp add: eval_defs ex_defs)
  then show ?thesis using ex_lists_inv by (simp add: word_sle_eq)
qed

text \<open>
  C6: for a list \<open>l\<close> at rest and a node \<open>n\<close> that is neither one of its nodes nor one of
  its sentinels, \<open>pushBack\<close> returns; then the owner of \<open>n\<close> is \<open>l\<close>, the size of \<open>l\<close> has
  grown by \<open>n.size()\<close>, the active bit of \<open>n\<close> holds \<open>inactive\<close>, and \<open>n\<close> is linked between
  the former last node (or the head sentinel) and the tail sentinel: it is the last
  node of \<open>l\<close>, which is at rest with \<open>n\<close> appended.
\<close>

theorem pushBack_effect:
  assumes "lru_inv h l xs" and "n \<notin> footprint h l xs"
  shows "\<exists>h' p ft. pushBack l n h = Inr h'
           \<and> tail h l = Inr (Some p) \<and> fakeTail (lrus h l) = Some ft
           \<and> owner (nodes h' n) = Some l
           \<and> size_l (lrus h' l) = size_l (lrus h l) + size_n (nodes h n)
           \<and> active (nodes h' n) = inactive_c
           \<and> next (nodes h' p) = Some n \<and> prev (nodes h' n) = Some p
           \<and> next (nodes h' n) = Some ft \<and> prev (nodes h' ft) = Some n
           \<and> tail h' l = Inr (Some n)
           \<and> lru_inv h' l (xs @ [n])"
proof -
  from assms(1) obtain fh ft where i: "fakeHead (lrus h l) = Some fh" "fakeTail (lrus h l) = Some ft"
    "fh \<noteq> ft" "ft \<notin> set xs" "chain (nodes h) fh xs ft"
    "footprint h l xs = {fh, ft} \<union> set xs"
    by (rule lru_invE)
  define p where "p = last (fh # xs)"
  have pin: "p \<in> set (fh # xs)" unfolding p_def by (rule last_in_set) simp
  have pft: "prev (nodes h ft) = Some p" using chain_prev_last[OF i(5)] by (simp add: p_def)
  have ne: "n \<noteq> ft" "n \<noteq> p" "p \<noteq> ft" using assms(2) i(3,4,6) pin by auto
  from lru_inv_pushBack[OF assms] obtain h' where
    h': "pushBack l n h = Inr h'" "lru_inv h' l (xs @ [n])" "active (nodes h' n) = inactive_c"
      "size_l (lrus h' l) = size_l (lrus h l) + size_n (nodes h n)"
    by blast
  from pushBack_links[OF i(2) pft ne] h'(1) have
    "owner (nodes h' n) = Some l \<and> next (nodes h' p) = Some n \<and> prev (nodes h' n) = Some p
      \<and> next (nodes h' n) = Some ft \<and> prev (nodes h' ft) = Some n \<and> tail h' l = Inr (Some n)"
    by auto
  moreover have "tail h l = Inr (Some p)" using i(2) pft by (simp add: tail_def)
  ultimately show ?thesis using h' i(2) by blast
qed

theorem pushBack_effect_witness:
  "lru_inv ex_heap 0 [2, 3] \<and> 4 \<notin> footprint ex_heap 0 [2, 3]
   \<and> (\<exists>h'. pushBack 0 4 ex_heap = Inr h'
         \<and> tail ex_heap 0 = Inr (Some 3) \<and> fakeTail (lrus ex_heap 0) = Some 1
         \<and> owner (nodes h' 4) = Some 0
         \<and> size_l (lrus h' 0) = 1021
         \<and> active (nodes h' 4) = 0
         \<and> next (nodes h' 3) = Some 4 \<and> prev (nodes h' 4) = Some 3
         \<and> next (nodes h' 4) = Some 1 \<and> prev (nodes h' 1) = Some 4
         \<and> tail h' 0 = Inr (Some 4)
         \<and> lru_inv h' 0 [2, 3, 4])"
proof -
  have 1: "lru_inv ex_heap 0 [2, 3]"
    by (simp add: lru_inv_def ex_defs size_n_def extraSizePerNode_def)
  have 2: "4 \<notin> footprint ex_heap 0 [2, 3]"
    by (simp add: footprint_def ex_defs)
  have 3: "tail ex_heap 0 = Inr (Some 3)" "fakeTail (lrus ex_heap 0) = Some 1"
    "size_l (lrus ex_heap 0) + size_n (nodes ex_heap 4) = 1021"
    by (simp_all add: tail_def ex_defs size_n_def extraSizePerNode_def)
  show ?thesis
    using pushBack_effect[OF 1 2] 1 2 3 by (auto simp: inactive_c_def)
qed

text \<open>
  C7: for a node \<open>n\<close> whose neighbours \<open>p\<close> and \<open>q\<close> are other nodes, \<open>detach\<close> links \<open>p\<close> and
  \<open>q\<close> to each other, sets \<open>prev\<close> and \<open>next\<close> of \<open>n\<close> to nil in a debug build only, and
  changes no owner and no list; for a node \<open>n\<close> owned by \<open>l\<close>, \<open>disown\<close> subtracts
  \<open>n.size()\<close> from the size of \<open>l\<close>, clears the owner of \<open>n\<close> in a debug build only, and
  changes no other list, no \<open>prev\<close> or \<open>next\<close> field and so no chain.
\<close>

theorem detach_disown_frame:
  "(prev (nodes h n) = Some p \<and> next (nodes h n) = Some q \<and> p \<noteq> n \<and> q \<noteq> n \<longrightarrow>
      (\<exists>h'. detach dbg n h = Inr h'
         \<and> next (nodes h' p) = Some q \<and> prev (nodes h' q) = Some p
         \<and> prev (nodes h' n) = (if dbg then None else Some p)
         \<and> next (nodes h' n) = (if dbg then None else Some q)
         \<and> lrus h' = lrus h
         \<and> (\<forall>m. owner (nodes h' m) = owner (nodes h m))
         \<and> (\<forall>m. m \<notin> {p, q, n} \<longrightarrow> nodes h' m = nodes h m)))
   \<and> (owner (nodes h n) = Some l \<longrightarrow>
      (\<exists>h'. disown dbg n h = Inr h'
         \<and> size_l (lrus h' l) = size_l (lrus h l) - size_n (nodes h n)
         \<and> fakeHead (lrus h' l) = fakeHead (lrus h l)
         \<and> fakeTail (lrus h' l) = fakeTail (lrus h l)
         \<and> (\<forall>k. k \<noteq> l \<longrightarrow> lrus h' k = lrus h k)
         \<and> owner (nodes h' n) = (if dbg then None else Some l)
         \<and> (\<forall>m. prev (nodes h' m) = prev (nodes h m) \<and> next (nodes h' m) = next (nodes h m))
         \<and> (\<forall>m. m \<noteq> n \<longrightarrow> nodes h' m = nodes h m)
         \<and> (\<forall>a xs b. chain (nodes h') a xs b = chain (nodes h) a xs b)))"
proof (intro conjI impI)
  assume a: "prev (nodes h n) = Some p \<and> next (nodes h n) = Some q \<and> p \<noteq> n \<and> q \<noteq> n"
  then show "\<exists>h'. detach dbg n h = Inr h'
         \<and> next (nodes h' p) = Some q \<and> prev (nodes h' q) = Some p
         \<and> prev (nodes h' n) = (if dbg then None else Some p)
         \<and> next (nodes h' n) = (if dbg then None else Some q)
         \<and> lrus h' = lrus h
         \<and> (\<forall>m. owner (nodes h' m) = owner (nodes h m))
         \<and> (\<forall>m. m \<notin> {p, q, n} \<longrightarrow> nodes h' m = nodes h m)"
    by (simp add: detach_def link_Some)
next
  assume o: "owner (nodes h n) = Some l"
  show "\<exists>h'. disown dbg n h = Inr h'
         \<and> size_l (lrus h' l) = size_l (lrus h l) - size_n (nodes h n)
         \<and> fakeHead (lrus h' l) = fakeHead (lrus h l)
         \<and> fakeTail (lrus h' l) = fakeTail (lrus h l)
         \<and> (\<forall>k. k \<noteq> l \<longrightarrow> lrus h' k = lrus h k)
         \<and> owner (nodes h' n) = (if dbg then None else Some l)
         \<and> (\<forall>m. prev (nodes h' m) = prev (nodes h m) \<and> next (nodes h' m) = next (nodes h m))
         \<and> (\<forall>m. m \<noteq> n \<longrightarrow> nodes h' m = nodes h m)
         \<and> (\<forall>a xs b. chain (nodes h') a xs b = chain (nodes h) a xs b)"
    using o by (auto simp: disown_def Let_def intro!: chain_cong)
qed

theorem detach_disown_frame_witness:
  "prev (nodes ex_heap 3) = Some 2 \<and> next (nodes ex_heap 3) = Some 1
   \<and> (2 :: nat) \<noteq> 3 \<and> (1 :: nat) \<noteq> 3
   \<and> (\<exists>h'. detach True 3 ex_heap = Inr h'
         \<and> next (nodes h' 2) = Some 1 \<and> prev (nodes h' 1) = Some 2
         \<and> prev (nodes h' 3) = None \<and> next (nodes h' 3) = None
         \<and> lrus h' = lrus ex_heap \<and> owner (nodes h' 3) = Some 0)
   \<and> owner (nodes ex_heap 3) = Some 0
   \<and> (\<exists>h'. disown True 3 ex_heap = Inr h'
         \<and> size_l (lrus h' 0) = 357
         \<and> size_l (lrus h' 1) = 267
         \<and> owner (nodes h' 3) = None
         \<and> prev (nodes h' 3) = Some 2 \<and> next (nodes h' 3) = Some 1)"
proof -
  have 1: "prev (nodes ex_heap 3) = Some 2 \<and> next (nodes ex_heap 3) = Some 1
             \<and> (2 :: nat) \<noteq> 3 \<and> (1 :: nat) \<noteq> 3"
    by (simp add: ex_defs)
  have 2: "owner (nodes ex_heap 3) = Some 0" by (simp add: ex_defs)
  have 3: "size_l (lrus ex_heap 0) - size_n (nodes ex_heap 3) = 357"
    "lrus ex_heap 1 = \<lparr>size_l = 267, fakeHead = Some 10, fakeTail = Some 11\<rparr>"
    "owner (nodes ex_heap 3) = Some 0"
    by (simp_all add: ex_defs size_n_def extraSizePerNode_def)
  show ?thesis
    using detach_disown_frame[of ex_heap 3 2 1 True 0] 1 2 3 by auto
qed

section \<open>Properties of handler construction\<close>

text \<open>
  C9: handler construction panics exactly when the pool's maximum chunk size is less
  than the protocol input buffer size, and completes otherwise.
\<close>

theorem NewHandler_panics_iff:
  "(NewHandler maxChunkSize MaxCommandLength = Inl ChunkSmallerThanInputBuffer)
     = (maxChunkSize <s MaxCommandLength)
   \<and> (NewHandler maxChunkSize MaxCommandLength = Inr ())
     = (\<not> maxChunkSize <s MaxCommandLength)"
  by (simp add: NewHandler_def)

section \<open>Properties of the connection\<close>

declare sendGetResponse_loop.simps [simp del]
declare close_rest.simps [simp del]

lemma nat_of_int_less_2p63: "int x < 2 ^ 63 \<Longrightarrow> x < 2 ^ 63"
  by (metis of_nat_less_iff of_nat_numeral of_nat_power)

lemma int_of_nat_less_2p63: "x < 2 ^ 63 \<Longrightarrow> int x < 2 ^ 63"
  by (metis of_nat_less_iff of_nat_numeral of_nat_power)

text \<open>The signed value of a 64-bit word, from its unsigned value.\<close>

lemma sint_if:
  fixes b :: int64
  shows "sint b = (if uint b < 2 ^ 63 then uint b else uint b - 2 ^ 64)"
proof -
  have u: "0 \<le> uint b" "uint b < 2 ^ 64" using uint_lt2p[of b] by simp_all
  have s: "sint b = (uint b + 2 ^ 63) mod 2 ^ 64 - 2 ^ 63"
    by (simp add: sint_uint signed_take_bit_eq_take_bit_shift take_bit_eq_mod)
  show ?thesis
  proof (cases "uint b < 2 ^ 63")
    case True
    then have "(uint b + 2 ^ 63) mod 2 ^ 64 = uint b + 2 ^ 63"
      using u by (intro mod_pos_pos_trivial) simp_all
    then show ?thesis using True s by simp
  next
    case False
    then have "(uint b + 2 ^ 63 - 2 ^ 64) mod 2 ^ 64 = uint b + 2 ^ 63 - 2 ^ 64"
      using u by (intro mod_pos_pos_trivial) simp_all
    then have "(uint b + 2 ^ 63) mod 2 ^ 64 = uint b + 2 ^ 63 - 2 ^ 64"
      by (simp only: minus_mod_self2)
    then show ?thesis using False s by simp
  qed
qed

lemma sint_nonneg:
  fixes b :: int64
  assumes "0 \<le>s b"
  shows "sint b = int (unat b)" and "unat b < 2 ^ 63"
proof -
  have u: "0 \<le> uint b" "uint b < 2 ^ 64" using uint_lt2p[of b] by simp_all
  have "0 \<le> sint b" using assms by (simp add: word_sle_eq)
  then have "uint b < 2 ^ 63" using u by (simp add: sint_if split: if_splits)
  then have "sint b = uint b" by (simp add: sint_if)
  then show "sint b = int (unat b)" by simp
  from \<open>uint b < 2 ^ 63\<close> have "int (unat b) < 2 ^ 63" by simp
  then show "unat b < 2 ^ 63" by (rule nat_of_int_less_2p63)
qed

text \<open>
  The count \<open>set\<close> passes to \<open>Discard\<close>, when the sum does not overflow a Go \<open>int\<close>.
\<close>

lemma discard_amount:
  fixes b :: int64
  assumes "0 \<le>s b" and "sint b + int n < 2 ^ 63"
  shows "\<not> (b + of_nat n) <s 0" and "unat (b + of_nat n) = nat (sint b) + n"
proof -
  have b: "sint b = int (unat b)" "unat b < 2 ^ 63" using sint_nonneg[OF assms(1)] by simp_all
  have "int (unat b + n) < 2 ^ 63" using assms(2) b by simp
  then have bn: "unat b + n < 2 ^ 63" by (rule nat_of_int_less_2p63)
  then have "n < 2 ^ 64" by simp
  then have un: "unat (of_nat n :: int64) = n" by (simp add: unat_of_nat)
  have "unat b + unat (of_nat n :: int64) < 2 ^ 64" using un bn by simp
  then have "unat (b + of_nat n) = unat b + unat (of_nat n :: int64)"
    by (simp add: unat_add_lem[THEN iffD1])
  then have e: "unat (b + of_nat n) = unat b + n" using un by simp
  then show "unat (b + of_nat n) = nat (sint b) + n" using b by simp
  have "int (unat (b + of_nat n)) < 2 ^ 63"
    using bn unfolding e by (rule int_of_nat_less_2p63)
  then have "uint (b + of_nat n) < 2 ^ 63" by simp
  then show "\<not> (b + of_nat n) <s 0"
    by (simp add: word_sless_alt sint_if)
qed

text \<open>
  C8: a SET whose fields parse and whose declared byte count exceeds the maximum item
  size returns the client error for a too large item, skips the declared bytes and the
  separator in the reader (all that is left when fewer are there, with an error), and
  passes nothing to \<open>Cache.Set\<close>. The byte count is in the spec's range (unsigned 32
  bits), so that adding the separator's length does not overflow a Go \<open>int\<close>.
\<close>

theorem set_rejects_too_large_item:
  assumes "parseSetFields p flds = (meta, noreply, None)"
    and "MaxItemSize c <s Bytes meta"
    and "0 \<le>s Bytes meta"
    and "sint (Bytes meta) + int (length (Separator p)) < 2 ^ 63"
  shows "\<exists>err c'. set_cmd p flds c = ((Some ErrTooLargeItem, err), c')
           \<and> inbuf c' = drop (nat (sint (Bytes meta)) + length (Separator p)) (inbuf c)
           \<and> (err = None) = (nat (sint (Bytes meta)) + length (Separator p) \<le> length (inbuf c))
           \<and> cache_sets c' = cache_sets c
           \<and> outbuf c' = outbuf c"
  using assms(1,2) discard_amount[OF assms(3,4)]
  by (simp add: set_cmd_def Discard_def)

theorem set_rejects_too_large_item_witness:
  "parseSetFields ex_protocol [''k'', ''0'', ''0'', ''5'']
       = (\<lparr>Key = ''k'', Flags = 0, Expiry = None, Bytes = 5\<rparr>, False, None)
   \<and> MaxItemSize ex_conn <s 5
   \<and> (0 :: int64) \<le>s 5
   \<and> sint (5 :: int64) + int (length (Separator ex_protocol)) < 2 ^ 63
   \<and> (\<exists>err c'. set_cmd ex_protocol [''k'', ''0'', ''0'', ''5''] ex_conn
                   = ((Some ErrTooLargeItem, err), c')
         \<and> inbuf c' = ''nextcmd''
         \<and> err = None
         \<and> cache_sets c' = []
         \<and> outbuf c' = [])"
proof -
  have 1: "parseSetFields ex_protocol [''k'', ''0'', ''0'', ''5'']
       = (\<lparr>Key = ''k'', Flags = 0, Expiry = None, Bytes = 5\<rparr>, False, None)"
    by (simp add: ex_protocol_def)
  have 2: "MaxItemSize ex_conn <s Bytes \<lparr>Key = ''k'', Flags = 0, Expiry = None, Bytes = 5\<rparr>"
    by (simp add: ex_conn_def)
  have 3: "0 \<le>s Bytes \<lparr>Key = ''k'', Flags = 0, Expiry = None, Bytes = 5\<rparr>"
    by (simp add: word_sle_eq)
  have 4: "sint (Bytes \<lparr>Key = ''k'', Flags = 0, Expiry = None, Bytes = 5\<rparr>)
             + int (length (Separator ex_protocol)) < 2 ^ 63"
    by (simp add: ex_protocol_def)
  show ?thesis
    using set_rejects_too_large_item[OF 1 2 3 4] 1 2 3 4
    by (simp add: ex_conn_def ex_protocol_def word_sle_eq)
qed

lemma closed_write_op: "closed (snd (write_op p ws c)) = closed c"
  by (simp add: write_op_def)

lemma closed_sendResponse: "closed (snd (sendResponse p res c)) = closed c"
  by (simp add: sendResponse_def Flush_def Let_def closed_write_op)

text \<open>The deferred function closes every reader from \<open>readerIndex\<close> on.\<close>

lemma close_rest_all:
  "\<forall>v\<in>set views. Reader v \<noteq> None \<Longrightarrow>
   \<exists>c'. close_rest views i c = (Returned (), c')
      \<and> closed c' = closed c @ map (\<lambda>v. the (Reader v)) (drop i views)"
proof (induction views i c rule: close_rest.induct)
  case (1 views i c)
  show ?case
  proof (cases "i < length views")
    case True
    then obtain r where r: "Reader (views ! i) = Some r"
      using 1(2) by (metis nth_mem not_None_eq)
    from 1(1)[OF True r 1(2)] obtain c' where
      c': "close_rest views (Suc i) (c\<lparr>closed := closed c @ [r]\<rparr>) = (Returned (), c')"
        "closed c' = closed (c\<lparr>closed := closed c @ [r]\<rparr>)
           @ map (\<lambda>v. the (Reader v)) (drop (Suc i) views)"
      by blast
    have "drop i views = views ! i # drop (Suc i) views"
      using True by (simp add: Cons_nth_drop_Suc)
    then show ?thesis
      using True r c' by (subst close_rest.simps) simp
  next
    case False
    then show ?thesis by (subst close_rest.simps) simp
  qed
qed

text \<open>
  The loop returns (it does not panic) at some index \<open>j\<close>, having closed the readers
  of the views it streamed: those from \<open>i\<close> up to \<open>j\<close>.
\<close>

lemma sendGetResponse_loop_closes:
  "\<forall>v\<in>set views. Reader v \<noteq> None \<Longrightarrow> i \<le> length views \<Longrightarrow>
   \<exists>err j c'. sendGetResponse_loop p views i c = (Returned err, j, c')
      \<and> i \<le> j \<and> j \<le> length views
      \<and> closed c' = closed c @ map (\<lambda>v. the (Reader v)) (take (j - i) (drop i views))"
proof (induction p views i c rule: sendGetResponse_loop.induct)
  case (1 p views i c)
  show ?case
  proof (cases "i < length views")
    case False
    then show ?thesis
      using closed_sendResponse[of p "EndResponse p" c] 1(3)
      by (subst sendGetResponse_loop.simps) (auto split: prod.splits)
  next
    case True
    then obtain r where r: "Reader (views ! i) = Some r"
      using 1(2) by (metis nth_mem not_None_eq)
    define c1 where "c1 = snd (write_op p [WString (ValueResponse p)] c)"
    define c2 where "c2 = snd (write_op p [WByte CHR '' ''] c1)"
    define c3 where "c3 = snd (write_op p [WString (vKey (views ! i))] c2)"
    define c4 where "c4 = snd (write_op p [WFlagsBytes (vFlags (views ! i)) (vBytes (views ! i)),
                                   WString (Separator p)] c3)"
    define c5 where "c5 = snd (write_op p [WData r] c4)"
    obtain e c6 where w: "write_op p [WString (Separator p)] c5 = (e, c6)"
      by (cases "write_op p [WString (Separator p)] c5") auto
    have "closed c6 = closed c5"
      using closed_write_op[of p "[WString (Separator p)]" c5] w by simp
    then have cl: "closed c6 = closed c"
      by (simp add: c5_def c4_def c3_def c2_def c1_def closed_write_op)
    show ?thesis
    proof (cases e)
      case (Some err)
      then show ?thesis
        using True r w cl
        by (subst sendGetResponse_loop.simps)
           (simp add: Let_def c5_def[symmetric] c4_def[symmetric] c3_def[symmetric]
              c2_def[symmetric] c1_def[symmetric])
    next
      case None
      have "\<exists>err j c'. sendGetResponse_loop p views (Suc i) (c6\<lparr>closed := closed c6 @ [r]\<rparr>)
                = (Returned err, j, c')
           \<and> Suc i \<le> j \<and> j \<le> length views
           \<and> closed c' = closed (c6\<lparr>closed := closed c6 @ [r]\<rparr>)
                 @ map (\<lambda>v. the (Reader v)) (take (j - Suc i) (drop (Suc i) views))"
        using 1(1)[OF True refl refl refl refl refl r refl _ _ 1(2)] w None True
        by (simp add: c5_def c4_def c3_def c2_def c1_def)
      then obtain err j c' where
        rec: "sendGetResponse_loop p views (Suc i) (c6\<lparr>closed := closed c6 @ [r]\<rparr>)
                = (Returned err, j, c')"
          "Suc i \<le> j" "j \<le> length views"
          "closed c' = closed (c6\<lparr>closed := closed c6 @ [r]\<rparr>)
                 @ map (\<lambda>v. the (Reader v)) (take (j - Suc i) (drop (Suc i) views))"
        by blast
      have d: "drop i views = views ! i # drop (Suc i) views"
        using True by (simp add: Cons_nth_drop_Suc)
      have t: "take (j - i) (drop i views) = views ! i # take (j - Suc i) (drop (Suc i) views)"
      proof -
        have "j - i = Suc (j - Suc i)" using rec(2) by arith
        then show ?thesis using d by simp
      qed
      show ?thesis
        using True r w None rec cl t
        by (subst sendGetResponse_loop.simps)
           (simp add: Let_def c5_def[symmetric] c4_def[symmetric] c3_def[symmetric]
              c2_def[symmetric] c1_def[symmetric])
    qed
  qed
qed

text \<open>
  C10: when every view carries a reader, \<open>sendGetResponse\<close> returns, with or without a
  write error, and the \<open>Close\<close> calls it has made are one for each view's reader, in the
  order of the views: none is left open and none is closed twice.
\<close>

theorem sendGetResponse_closes_each_once:
  assumes "\<forall>v\<in>set views. Reader v \<noteq> None"
  shows "\<exists>err c'. sendGetResponse p views c = (Returned err, c')
           \<and> closed c' = closed c @ map (\<lambda>v. the (Reader v)) views"
proof -
  obtain err j c1 where
    l: "sendGetResponse_loop p views 0 c = (Returned err, j, c1)" "j \<le> length views"
       "closed c1 = closed c @ map (\<lambda>v. the (Reader v)) (take j views)"
    using sendGetResponse_loop_closes[OF assms, of 0 p c] by auto
  obtain c2 where
    r: "close_rest views j c1 = (Returned (), c2)"
       "closed c2 = closed c1 @ map (\<lambda>v. the (Reader v)) (drop j views)"
    using close_rest_all[OF assms, of j c1] by auto
  have "map (\<lambda>v. the (Reader v)) (take j views) @ map (\<lambda>v. the (Reader v)) (drop j views)
          = map (\<lambda>v. the (Reader v)) views"
    by (simp flip: map_append)
  then show ?thesis
    using l r by (simp add: sendGetResponse_def)
qed

theorem sendGetResponse_closes_each_once_witness:
  "list_all (\<lambda>v. Reader v \<noteq> None) ex_views
   \<and> (\<exists>err c'. sendGetResponse (ex_protocol\<lparr>write_fails := (\<lambda>k. k = 5)\<rparr>) ex_views ex_conn
                   = (Returned err, c')
         \<and> closed c' = [7, 8])"
proof -
  have 1: "\<forall>v\<in>set ex_views. Reader v \<noteq> None"
    by (simp add: ex_views_def)
  show ?thesis
    using sendGetResponse_closes_each_once[OF 1, of "ex_protocol\<lparr>write_fails := (\<lambda>k. k = 5)\<rparr>" ex_conn]
    by (simp add: ex_views_def ex_conn_def)
qed

end
